theory Spec2Isabelle
  imports Complex_Main "HOL-Library.List_Lexorder"
begin

section \<open>Data model\<close>

text \<open>
  A caller-owned tree node of \<^verbatim>\<open>index.jsx\<close>.  The field \<open>key\<close> may be absent
  (\<open>None\<close>, JavaScript \<^verbatim>\<open>undefined\<close>) or the empty string; both are falsy.  The field
  \<open>children\<close> may be absent as well (\<open>None\<close>) or an array.  Keys are strings, as the
  caller of the repository generates them.  The optional decorations
  \<^verbatim>\<open>icon\<close> and \<^verbatim>\<open>extra\<close> are never read by the engine and are left out.
\<close>

datatype node = Node (key: "string option") (title: string) (children: "node list option")

text \<open>
  The array \<^verbatim>\<open>node.children\<close> where the source has established that it is one; an
  absent field has no elements to iterate.
\<close>

definition kids :: "node \<Rightarrow> node list" where
  "kids n = (case children n of None \<Rightarrow> [] | Some cs \<Rightarrow> cs)"

text \<open>
  The JavaScript expression \<^verbatim>\<open>node.children && node.children.length > 0\<close>: it is
  \<^verbatim>\<open>undefined\<close> (\<open>None\<close>) when the field is absent and a boolean otherwise.
\<close>

definition children_nonempty :: "node \<Rightarrow> bool option" where
  "children_nonempty n = (case children n of None \<Rightarrow> None | Some cs \<Rightarrow> Some (0 < length cs))"

text \<open>Truthiness of such a value, as tested by \<^verbatim>\<open>if\<close> and \<^verbatim>\<open>&&\<close>.\<close>

definition truthy :: "bool option \<Rightarrow> bool" where
  "truthy b = (b = Some True)"

text \<open>
  A flattened row: the spread \<^verbatim>\<open>...node\<close> (title and children), the key overridden,
  and the four derived attributes.  The source calls the depth \<^verbatim>\<open>level\<close>.
\<close>

record row =
  row_key :: string
  row_title :: string
  row_children :: "node list option"
  level :: nat
  parentKey :: "string option"
  hasChildren :: "bool option"
  isExpanded :: bool

text \<open>
  The expansion state is a JavaScript \<^verbatim>\<open>Set\<close>.  \<^verbatim>\<open>expandAll\<close> stores raw \<^verbatim>\<open>node.key\<close>
  values in it, which may be \<^verbatim>\<open>undefined\<close>, so its members are optional strings.
\<close>

type_synonym expansion = "string option set"

section \<open>Flatten\<close>

text \<open>Decimal rendering of an array index inside a template literal.\<close>

definition digit_char :: "nat \<Rightarrow> char" where
  "digit_char d = ''0123456789'' ! d"

function string_of_nat :: "nat \<Rightarrow> string" where
  "string_of_nat n =
     (if n < 10 then [digit_char n] else string_of_nat (n div 10) @ [digit_char (n mod 10)])"
  by pat_completeness auto
termination
  by (relation "measure id") auto

declare string_of_nat.simps [simp del]

text \<open>
  The template literal \<^verbatim>\<open>`${parentKey}-${index}`\<close>; a \<^verbatim>\<open>null\<close> parent key prints as
  the four letters \<^verbatim>\<open>null\<close>.
\<close>

definition template_key :: "string option \<Rightarrow> nat \<Rightarrow> string" where
  "template_key pk index =
     (case pk of None \<Rightarrow> ''null'' | Some s \<Rightarrow> s) @ ''-'' @ string_of_nat index"

text \<open>\<^verbatim>\<open>node.key || `${parentKey}-${index}`\<close>: the empty string is falsy too.\<close>

definition item_key :: "string option \<Rightarrow> nat \<Rightarrow> node \<Rightarrow> string" where
  "item_key pk index n =
     (case key n of
        None \<Rightarrow> template_key pk index
      | Some k \<Rightarrow> if k = [] then template_key pk index else k)"

text \<open>The object literal \<^verbatim>\<open>item\<close> of \<^verbatim>\<open>flattenTree\<close>.\<close>

definition make_item :: "expansion \<Rightarrow> nat \<Rightarrow> string option \<Rightarrow> nat \<Rightarrow> node \<Rightarrow> row" where
  "make_item expandedKeys lvl pk index n =
     \<lparr> row_key = item_key pk index n,
       row_title = title n,
       row_children = children n,
       level = lvl,
       parentKey = pk,
       hasChildren = children_nonempty n,
       isExpanded = (Some (item_key pk index n) \<in> expandedKeys) \<rparr>"

text \<open>
  \<^verbatim>\<open>flattenTree(nodes, level, parentKey)\<close>.  The \<^verbatim>\<open>forEach\<close> with its index is the
  recursion over the remaining siblings, \<open>index\<close> being the position of the head of the
  list in the whole sibling array.
\<close>

function flattenTree_from ::
  "expansion \<Rightarrow> nat \<Rightarrow> string option \<Rightarrow> nat \<Rightarrow> node list \<Rightarrow> row list" where
  "flattenTree_from expandedKeys lvl pk index [] = []"
| "flattenTree_from expandedKeys lvl pk index (n # ns) =
     (let item = make_item expandedKeys lvl pk index n in
        item #
        (if truthy (hasChildren item) \<and> isExpanded item
         then flattenTree_from expandedKeys (lvl + 1) (Some (row_key item)) 0 (kids n)
         else []) @
        flattenTree_from expandedKeys lvl pk (index + 1) ns)"
  by pat_completeness auto
termination
proof (relation "measure (\<lambda>(e, l, p, i, ns). size_list size ns)")
  have kids_le: "size_list size (kids n) \<le> size n" for n
    by (cases n) (auto simp: kids_def split: option.splits)
  show "((e, Suc_lvl, k, 0, kids n), (e, lvl, pk, index, n # ns))
          \<in> measure (\<lambda>(e, l, p, i, ns). size_list size ns)"
    for e :: expansion and Suc_lvl lvl index :: nat and k pk :: "string option" and n ns
    using kids_le [of n] by simp
qed auto

text \<open>The call with the default arguments \<^verbatim>\<open>level = 0, parentKey = null\<close>.\<close>

definition flattenTree :: "expansion \<Rightarrow> node list \<Rightarrow> row list" where
  "flattenTree expandedKeys nodes = flattenTree_from expandedKeys 0 None 0 nodes"

section \<open>Layout\<close>

text \<open>
  Pixel quantities are JavaScript numbers (\<^verbatim>\<open>offsetHeight\<close>, \<^verbatim>\<open>contentRect.height\<close>,
  \<^verbatim>\<open>getBoundingClientRect\<close>); they are modelled as real numbers, so rounding of the
  floating-point sum is not represented.
\<close>

type_synonym px = real

record position =
  pos_key :: string
  pos_top :: px
  pos_height :: px

text \<open>
  A JavaScript object used as a dictionary from row key to measured height.  The map
  holds its own properties; the object is created by an object literal, so it also
  inherits the properties of \<^verbatim>\<open>Object.prototype\<close>.
\<close>

type_synonym heights = "string \<rightharpoonup> px"

text \<open>The property names every plain object inherits from \<^verbatim>\<open>Object.prototype\<close>.\<close>

definition object_prototype_names :: "string list" where
  "object_prototype_names =
     [''constructor'', ''__defineGetter__'', ''__defineSetter__'', ''hasOwnProperty'',
      ''__lookupGetter__'', ''__lookupSetter__'', ''isPrototypeOf'', ''propertyIsEnumerable'',
      ''toString'', ''valueOf'', ''__proto__'', ''toLocaleString'']"

text \<open>
  The result of reading \<^verbatim>\<open>obj[key]\<close>: an own property holds a number; an inherited
  one holds a function, or for \<^verbatim>\<open>__proto__\<close> the prototype object; anything else reads as
  \<^verbatim>\<open>undefined\<close>.
\<close>

datatype property_value = Own px | Inherited | Missing

definition obj_get :: "heights \<Rightarrow> string \<Rightarrow> property_value" where
  "obj_get obj k =
     (case obj k of
        Some h \<Rightarrow> Own h
      | None \<Rightarrow> if k \<in> set object_prototype_names then Inherited else Missing)"

text \<open>
  The assignment \<^verbatim>\<open>obj[key] = height\<close>.  For \<^verbatim>\<open>__proto__\<close> it runs the inherited setter,
  which ignores a number, unless the object has an own property of that name; for every
  other key it creates or updates the own property.
\<close>

definition obj_assign :: "heights \<Rightarrow> string \<Rightarrow> px \<Rightarrow> heights" where
  "obj_assign obj k height =
     (if k = ''__proto__'' \<and> obj k = None then obj else obj(k \<mapsto> height))"

text \<open>
  The values a height or a running top can take: a number, an inherited function or
  object, or the string that \<^verbatim>\<open>+\<close> produces once an operand is not a number (its
  characters are not modelled).
\<close>

datatype jsval = Num px | Object_value | Text

text \<open>
  \<^verbatim>\<open>nodeHeights[node.key] || itemMinHeight\<close>: \<^verbatim>\<open>undefined\<close> and the number \<open>0\<close> are falsy,
  an inherited function or object is truthy.
\<close>

definition height_or_min :: "heights \<Rightarrow> px \<Rightarrow> string \<Rightarrow> jsval" where
  "height_or_min nodeHeights itemMinHeight k =
     (case obj_get nodeHeights k of
        Missing \<Rightarrow> Num itemMinHeight
      | Own h \<Rightarrow> if h = 0 then Num itemMinHeight else Num h
      | Inherited \<Rightarrow> Object_value)"

text \<open>
  The operator \<^verbatim>\<open>+\<close> of \<^verbatim>\<open>currentTop += height\<close>: numbers are added; with a function,
  an object or a string as operand the result is a string.
\<close>

fun js_plus :: "jsval \<Rightarrow> jsval \<Rightarrow> jsval" where
  "js_plus (Num a) (Num b) = Num (a + b)"
| "js_plus a b = Text"

text \<open>An entry \<^verbatim>\<open>{ key, top, height }\<close> as the memo builds it.\<close>

record js_position =
  js_key :: string
  js_top :: jsval
  js_height :: jsval

text \<open>
  One turn of the \<^verbatim>\<open>forEach\<close> in the \<^verbatim>\<open>positions\<close> memo: the state is the array built
  so far and \<^verbatim>\<open>currentTop\<close>.
\<close>

definition layout_step ::
  "heights \<Rightarrow> px \<Rightarrow> js_position list \<times> jsval \<Rightarrow> row \<Rightarrow> js_position list \<times> jsval" where
  "layout_step nodeHeights itemMinHeight acc node =
     (let height = height_or_min nodeHeights itemMinHeight (row_key node);
          positions = fst acc;
          currentTop = snd acc
      in (positions @ [\<lparr> js_key = row_key node, js_top = currentTop, js_height = height \<rparr>],
          js_plus currentTop height))"

text \<open>The memo's result \<^verbatim>\<open>{ positions, totalHeight }\<close> as a pair.\<close>

definition layout :: "heights \<Rightarrow> px \<Rightarrow> row list \<Rightarrow> js_position list \<times> jsval" where
  "layout nodeHeights itemMinHeight flattenedData =
     foldl (layout_step nodeHeights itemMinHeight) ([], Num 0) flattenedData"

text \<open>
  A table all of whose tops and heights are numbers, read as the numeric table the
  viewport intersection scans; \<open>None\<close> when some entry is not a number.
\<close>

fun numeric_positions :: "js_position list \<Rightarrow> position list option" where
  "numeric_positions [] = Some []"
| "numeric_positions (p # ps) =
     (case (js_top p, js_height p, numeric_positions ps) of
        (Num t, Num h, Some qs) \<Rightarrow> Some (\<lparr> pos_key = js_key p, pos_top = t, pos_height = h \<rparr> # qs)
      | _ \<Rightarrow> None)"

section \<open>Viewport intersection\<close>

text \<open>
  The scans are modelled on tables whose tops and heights are numbers (see
  \<open>numeric_positions\<close>).
\<close>

record range =
  range_start :: nat
  range_end :: nat

text \<open>
  The first loop of \<^verbatim>\<open>visibleRange\<close>, from index \<open>i\<close> on.  The value \<open>0\<close> of the last
  branch is the initial \<^verbatim>\<open>let start = 0\<close>, kept when the loop ends without a
  \<^verbatim>\<open>break\<close>.  The overscan is a row count.
\<close>

function start_scan :: "position list \<Rightarrow> px \<Rightarrow> nat \<Rightarrow> nat \<Rightarrow> nat" where
  "start_scan positions viewportTop overscan i =
     (if i < length positions
      then (if pos_top (positions ! i) + pos_height (positions ! i) \<ge> viewportTop
            then nat (max 0 (int i - int overscan))
            else start_scan positions viewportTop overscan (i + 1))
      else 0)"
  by pat_completeness auto
termination
  by (relation "measure (\<lambda>(positions, t, ov, i). length positions - i)") auto

declare start_scan.simps [simp del]

text \<open>
  The second loop, from index \<open>i\<close> on; the last branch is the initial
  \<^verbatim>\<open>let end = positions.length - 1\<close>.
\<close>

function end_scan :: "position list \<Rightarrow> px \<Rightarrow> nat \<Rightarrow> nat \<Rightarrow> nat" where
  "end_scan positions viewportBottom overscan i =
     (if i < length positions
      then (if pos_top (positions ! i) > viewportBottom
            then min (length positions - 1) (i + overscan)
            else end_scan positions viewportBottom overscan (i + 1))
      else length positions - 1)"
  by pat_completeness auto
termination
  by (relation "measure (\<lambda>(positions, b, ov, i). length positions - i)") auto

declare end_scan.simps [simp del]

text \<open>The two loops for a given \<^verbatim>\<open>viewportTop\<close>.\<close>

definition scan_range :: "position list \<Rightarrow> px \<Rightarrow> px \<Rightarrow> nat \<Rightarrow> range" where
  "scan_range positions viewportTop viewportHeight overscan =
     (let viewportBottom = viewportTop + viewportHeight;
          start = start_scan positions viewportTop overscan 0
      in \<lparr> range_start = start,
           range_end = end_scan positions viewportBottom overscan start \<rparr>)"

text \<open>
  The \<^verbatim>\<open>visibleRange\<close> memo.  \<open>container\<close> is \<^verbatim>\<open>containerRef.current\<close>: \<open>None\<close> when the
  element is not mounted yet, else the \<^verbatim>\<open>top\<close> of its bounding rectangle;
  \<open>viewportHeight\<close> is \<^verbatim>\<open>window.innerHeight\<close>.
\<close>

definition visibleRange :: "position list \<Rightarrow> px option \<Rightarrow> px \<Rightarrow> nat \<Rightarrow> range" where
  "visibleRange positions container viewportHeight overscan =
     (if length positions = 0 then \<lparr> range_start = 0, range_end = 0 \<rparr>
      else case container of
        None \<Rightarrow> \<lparr> range_start = 0, range_end = min 20 (length positions - 1) \<rparr>
      | Some rect_top \<Rightarrow>
          scan_range positions (max 0 (- rect_top)) viewportHeight overscan)"

text \<open>\<^verbatim>\<open>flattenedData.slice(visibleRange.start, visibleRange.end + 1)\<close>.\<close>

definition visibleNodes :: "row list \<Rightarrow> range \<Rightarrow> row list" where
  "visibleNodes flattenedData r =
     take (range_end r + 1 - range_start r) (drop (range_start r) flattenedData)"

section \<open>Engine state and its operations\<close>

datatype drop_position = Before | After | Inside

record drag_state =
  dragging :: bool
  dragNode :: "row option"
  dropPosition :: "drop_position option"
  dropNode :: "row option"

text \<open>The object every terminal drag event stores.\<close>

definition idle :: drag_state where
  "idle = \<lparr> dragging = False, dragNode = None, dropPosition = None, dropNode = None \<rparr>"

text \<open>Calls of the caller's callbacks, in the order they are made.\<close>

datatype notification =
    NodeExpand string bool
  | DropIntent row row drop_position

text \<open>
  The props and the state of the component in one record.  \<open>onNodeExpand\<close> and \<open>onDrop\<close>
  tell whether the caller passed the callback.  \<open>setNodeHeights_calls\<close> counts the
  calls of \<^verbatim>\<open>setNodeHeights\<close>: each stores a fresh object, which is what makes the
  \<^verbatim>\<open>positions\<close> memo run again.
\<close>

record engine =
  data :: "node list"
  itemMinHeight :: px
  overscan :: nat
  draggable :: bool
  onNodeExpand :: bool
  onDrop :: bool
  expandedKeys :: expansion
  nodeHeights :: heights
  heightCacheRef :: heights
  setNodeHeights_calls :: nat
  dragState :: drag_state

text \<open>The \<^verbatim>\<open>traverse\<close> closure of \<^verbatim>\<open>getAllKeys\<close>; the pushes are the returned list.\<close>

function traverse :: "node list \<Rightarrow> string option list" where
  "traverse [] = []"
| "traverse (n # ns) =
     (if truthy (children_nonempty n) then key n # traverse (kids n) else []) @ traverse ns"
  by pat_completeness auto
termination
proof (relation "measure (size_list size)")
  have kids_le: "size_list size (kids n) \<le> size n" for n
    by (cases n) (auto simp: kids_def split: option.splits)
  show "(kids n, n # ns) \<in> measure (size_list size)" for n ns
    using kids_le [of n] by simp
qed auto

definition getAllKeys :: "node list \<Rightarrow> string option list" where
  "getAllKeys nodes = traverse nodes"

definition expandAll :: "engine \<Rightarrow> engine" where
  "expandAll st = st\<lparr> expandedKeys := set (getAllKeys (data st)) \<rparr>"

definition collapseAll :: "engine \<Rightarrow> engine" where
  "collapseAll st = st\<lparr> expandedKeys := {} \<rparr>"

text \<open>
  \<^verbatim>\<open>toggleExpand(key)\<close>, with the state update applied to the state the callback
  closed over (one event per render).
\<close>

definition toggleExpand :: "string \<Rightarrow> engine \<Rightarrow> engine \<times> notification list" where
  "toggleExpand k st =
     (st\<lparr> expandedKeys :=
            (if Some k \<in> expandedKeys st then expandedKeys st - {Some k}
             else insert (Some k) (expandedKeys st)) \<rparr>,
      if onNodeExpand st then [NodeExpand k (\<not> (Some k \<in> expandedKeys st))] else [])"

text \<open>\<^verbatim>\<open>handleExpandClick\<close> of \<^verbatim>\<open>TreeNode.jsx\<close>, for the row \<open>node\<close>.\<close>

definition handleExpandClick :: "row \<Rightarrow> engine \<Rightarrow> engine \<times> notification list" where
  "handleExpandClick node st =
     (if truthy (hasChildren node) then toggleExpand (row_key node) st else (st, []))"

text \<open>
  \<^verbatim>\<open>updateNodeHeight(key, height)\<close>.  The guard reads the cache object and compares
  with \<^verbatim>\<open>!==\<close>, which only a number equal to \<open>height\<close> fails; the cache is written by
  assignment, and the state object is rebuilt by a spread with a computed key, which
  always defines an own property.
\<close>

definition updateNodeHeight :: "string \<Rightarrow> px \<Rightarrow> engine \<Rightarrow> engine" where
  "updateNodeHeight k height st =
     (if obj_get (heightCacheRef st) k \<noteq> Own height
      then st\<lparr> heightCacheRef := obj_assign (heightCacheRef st) k height,
               nodeHeights := (nodeHeights st)(k \<mapsto> height),
               setNodeHeights_calls := setNodeHeights_calls st + 1 \<rparr>
      else st)"

text \<open>The position table the component shows in a given state.\<close>

definition positions_of :: "engine \<Rightarrow> js_position list \<times> jsval" where
  "positions_of st =
     layout (nodeHeights st) (itemMinHeight st) (flattenTree (expandedKeys st) (data st))"

definition handleDragStart :: "row \<Rightarrow> engine \<Rightarrow> engine" where
  "handleDragStart node st =
     (if \<not> draggable st then st
      else st\<lparr> dragState :=
             \<lparr> dragging = True, dragNode = Some node, dropPosition = None, dropNode = None \<rparr> \<rparr>)"

text \<open>\<^verbatim>\<open>handleDragOver(e, node, position)\<close> of \<^verbatim>\<open>index.jsx\<close>.\<close>

definition handleDragOver :: "row \<Rightarrow> drop_position \<Rightarrow> engine \<Rightarrow> engine" where
  "handleDragOver node pos st =
     (if \<not> draggable st \<or> \<not> dragging (dragState st) then st
      else st\<lparr> dragState := (dragState st)\<lparr> dropPosition := Some pos, dropNode := Some node \<rparr> \<rparr>)"

text \<open>
  The classification in \<^verbatim>\<open>handleDragOver\<close> of \<^verbatim>\<open>TreeNode.jsx\<close>, from
  \<^verbatim>\<open>offsetY = e.clientY - rect.top\<close> and \<^verbatim>\<open>height = rect.height\<close>.
\<close>

definition classify :: "px \<Rightarrow> px \<Rightarrow> drop_position" where
  "classify offsetY height =
     (if offsetY < height * 0.25 then Before
      else if offsetY > height * 0.75 then After
      else Inside)"

text \<open>
  \<^verbatim>\<open>handleDragOver\<close> of \<^verbatim>\<open>TreeNode.jsx\<close>; the engine always passes \<^verbatim>\<open>onDragOver\<close>.
\<close>

definition row_handleDragOver :: "row \<Rightarrow> px \<Rightarrow> px \<Rightarrow> px \<Rightarrow> engine \<Rightarrow> engine" where
  "row_handleDragOver node clientY rect_top rect_height st =
     (if \<not> draggable st then st
      else handleDragOver node (classify (clientY - rect_top) rect_height) st)"

definition handleDragLeave :: "engine \<Rightarrow> engine" where
  "handleDragLeave st =
     (if \<not> draggable st then st
      else st\<lparr> dragState := (dragState st)\<lparr> dropPosition := None, dropNode := None \<rparr> \<rparr>)"


definition handleDragEnd :: "engine \<Rightarrow> engine" where
  "handleDragEnd st = st\<lparr> dragState := idle \<rparr>"

section \<open>Reachable rows, as the specification words them\<close>

text \<open>
  A row position is the path of sibling indices leading to it from the roots.  The
  definitions of this section follow the specification, not the source: which node a
  path denotes, which key the row of that node carries, and which paths are reachable
  by descending only through expanded nodes that have children.
\<close>

type_synonym path = "nat list"

fun node_at :: "node list \<Rightarrow> path \<Rightarrow> node option" where
  "node_at ns [] = None"
| "node_at ns [i] = (if i < length ns then Some (ns ! i) else None)"
| "node_at ns (i # p) = (if i < length ns then node_at (kids (ns ! i)) p else None)"

text \<open>
  The key of the row at a path: the node's own key when it has a non-empty one, else
  the key of the parent row (\<^verbatim>\<open>null\<close> above the roots), a hyphen and the sibling
  index.  At the empty path it is the key above the roots.
\<close>

fun key_at :: "string option \<Rightarrow> node list \<Rightarrow> path \<Rightarrow> string option" where
  "key_at pk ns [] = pk"
| "key_at pk ns (i # p) =
     key_at (Some (case key (ns ! i) of
                     None \<Rightarrow> (case pk of None \<Rightarrow> ''null'' | Some s \<Rightarrow> s) @ ''-'' @ string_of_nat i
                   | Some k \<Rightarrow> if k = [] then (case pk of None \<Rightarrow> ''null'' | Some s \<Rightarrow> s) @ ''-'' @ string_of_nat i
                              else k))
            (kids (ns ! i)) p"

text \<open>
  A path is reachable when it denotes a node and every proper ancestor on it is an
  expanded node; an ancestor has the next node of the path among its children, so it is
  a branch node.
\<close>

fun reachable :: "expansion \<Rightarrow> string option \<Rightarrow> node list \<Rightarrow> path \<Rightarrow> bool" where
  "reachable E pk ns [] = False"
| "reachable E pk ns [i] = (i < length ns)"
| "reachable E pk ns (i # p) =
     (i < length ns \<and> key_at pk ns [i] \<in> E \<and> reachable E (key_at pk ns [i]) (kids (ns ! i)) p)"

text \<open>
  The row the specification expects at a path: depth is the number of ancestors (above
  a base depth), \<open>parentKey\<close> is the key of the row one step up, \<open>hasChildren\<close> tells
  whether the node has at least one child, and \<open>isExpanded\<close> whether the row's key is in
  the expansion state.
\<close>

definition row_at :: "expansion \<Rightarrow> nat \<Rightarrow> string option \<Rightarrow> node list \<Rightarrow> path \<Rightarrow> row" where
  "row_at E base pk ns p =
     \<lparr> row_key = the (key_at pk ns p),
       row_title = title (the (node_at ns p)),
       row_children = children (the (node_at ns p)),
       level = base + (length p - 1),
       parentKey = key_at pk ns (butlast p),
       hasChildren = children_nonempty (the (node_at ns p)),
       isExpanded = (key_at pk ns p \<in> E) \<rparr>"

text \<open>The tree of the scenario: roots A and C, A with child B, C with child D.\<close>

definition leaf :: "string \<Rightarrow> node" where
  "leaf k = Node (Some k) k (Some [])"

definition scenario_tree :: "node list" where
  "scenario_tree =
     [Node (Some ''A'') ''A'' (Some [leaf ''B'']), Node (Some ''C'') ''C'' (Some [leaf ''D''])]"

text \<open>All nodes of a forest, at every depth.\<close>

function nodes_of :: "node list \<Rightarrow> node list" where
  "nodes_of [] = []"
| "nodes_of (n # ns) = n # nodes_of (kids n) @ nodes_of ns"
  by pat_completeness auto
termination
proof (relation "measure (size_list size)")
  have kids_le: "size_list size (kids n) \<le> size n" for n
    by (cases n) (auto simp: kids_def split: option.splits)
  show "(kids n, n # ns) \<in> measure (size_list size)" for n ns
    using kids_le [of n] by simp
qed auto

text \<open>A node with at least one child.\<close>

definition has_child :: "node \<Rightarrow> bool" where
  "has_child n = (kids n \<noteq> [])"

text \<open>
  \<open>i\<close> is the index of the first element of \<open>xs\<close>, scanning from index \<open>s\<close>, that
  satisfies \<open>P\<close>.
\<close>

definition first_from :: "nat \<Rightarrow> ('a \<Rightarrow> bool) \<Rightarrow> 'a list \<Rightarrow> nat \<Rightarrow> bool" where
  "first_from s P xs i = (s \<le> i \<and> i < length xs \<and> P (xs ! i) \<and> (\<forall>j\<in>{s..<i}. \<not> P (xs ! j)))"

text \<open>The rows and heights of the scenarios.\<close>

definition scenario_rows :: "row list" where
  "scenario_rows = flattenTree {Some ''C''} scenario_tree"

definition scenario_heights :: heights where
  "scenario_heights = [''A'' \<mapsto> 32, ''C'' \<mapsto> 40, ''D'' \<mapsto> 32]"

text \<open>The position table of the three scenario rows when no height is cached yet.\<close>

definition three_rows :: "position list" where
  "three_rows =
     (case numeric_positions (fst (layout Map.empty 32 scenario_rows)) of
        Some ps \<Rightarrow> ps
      | None \<Rightarrow> [])"

text \<open>
  An engine state over the scenario tree: only C expanded, the three scenario heights
  measured, every callback supplied, no drag under way.
\<close>

definition scenario_engine :: engine where
  "scenario_engine =
     \<lparr> data = scenario_tree, itemMinHeight = 32, overscan = 5, draggable = True,
       onNodeExpand = True, onDrop = True, expandedKeys = {Some ''C''},
       nodeHeights = scenario_heights, heightCacheRef = scenario_heights,
       setNodeHeights_calls = 3, dragState = idle \<rparr>"

text \<open>The rows of B and of C when both roots are expanded.\<close>

definition row_B :: row where
  "row_B = flattenTree {Some ''A'', Some ''C''} scenario_tree ! 1"

definition row_C :: row where
  "row_C = flattenTree {Some ''A'', Some ''C''} scenario_tree ! 2"

text \<open>
  A tree whose root has no key and whose only child has the empty string as key, with
  the synthesized key of the root expanded.
\<close>

definition keyless_tree :: "node list" where
  "keyless_tree = [Node None ''x'' (Some [Node (Some []) ''y'' (Some [])])]"

definition keyless_expansion :: expansion where
  "keyless_expansion = {Some ''null-0''}"

text \<open>
  Decimal numerals, as the specification understands "the sibling index": \<open>d\<close> is the
  decimal numeral of \<open>n\<close> when it is a non-empty string of digits without a leading
  zero (the numeral of 0 apart) whose value is \<open>n\<close>.
\<close>

definition is_digit :: "char \<Rightarrow> bool" where
  "is_digit c = (c \<in> set ''0123456789'')"

definition digit_value :: "char \<Rightarrow> nat" where
  "digit_value c = of_char c - 48"

definition decimal_value :: "string \<Rightarrow> nat" where
  "decimal_value d = foldl (\<lambda>a c. 10 * a + digit_value c) 0 d"

definition is_decimal_of :: "string \<Rightarrow> nat \<Rightarrow> bool" where
  "is_decimal_of d n =
     (d \<noteq> [] \<and> list_all is_digit d \<and> (hd d = CHR ''0'' \<longrightarrow> d = ''0'') \<and> decimal_value d = n)"

text \<open>Thirteen sibling roots without keys.\<close>

definition keyless_leaf :: node where
  "keyless_leaf = Node None ''x'' (Some [])"

definition thirteen_keyless :: "node list" where
  "thirteen_keyless =
     [keyless_leaf, keyless_leaf, keyless_leaf, keyless_leaf, keyless_leaf, keyless_leaf,
      keyless_leaf, keyless_leaf, keyless_leaf, keyless_leaf, keyless_leaf, keyless_leaf,
      keyless_leaf]"

section \<open>Flatten: reachable rows in pre-order\<close>

text \<open>
  Paths are ordered lexicographically, a path before its extensions: this is the
  depth-first pre-order of the positions of a forest.  A list of paths that is strictly
  increasing in this order is in pre-order and has no repetition.
\<close>

lemma item_key_eq: "Some (item_key pk i (ns ! i)) = key_at pk ns [i]"
  by (simp add: item_key_def template_key_def split: option.splits)

lemma reachable_nonempty: "reachable E pk ns p \<Longrightarrow> p \<noteq> []"
  by (cases p) auto

lemma reachable_hd: "reachable E pk ns p \<Longrightarrow> hd p < length ns"
  by (cases p; cases "tl p") auto

lemma reachable_Cons:
  "reachable E pk ns (i # p) =
     (i < length ns \<and> (p = [] \<or> key_at pk ns [i] \<in> E \<and> reachable E (key_at pk ns [i]) (kids (ns ! i)) p))"
  by (cases p) auto

lemma row_at_single:
  "i < length ns \<Longrightarrow> row_at E lvl pk ns [i] = make_item E lvl pk i (ns ! i)"
  by (simp add: row_at_def make_item_def item_key_def template_key_def split: option.splits)

lemma node_at_Cons: "p \<noteq> [] \<Longrightarrow> i < length ns \<Longrightarrow> node_at ns (i # p) = node_at (kids (ns ! i)) p"
  by (cases p) auto

lemma row_at_Cons:
  "p \<noteq> [] \<Longrightarrow> i < length ns \<Longrightarrow>
   row_at E lvl pk ns (i # p) = row_at E (Suc lvl) (key_at pk ns [i]) (kids (ns ! i)) p"
  by (cases p) (auto simp add: row_at_def node_at_Cons)

lemma kids_empty_if_not_truthy: "\<not> truthy (children_nonempty n) \<Longrightarrow> kids n = []"
  by (auto simp: truthy_def children_nonempty_def kids_def split: option.splits)

lemma reachable_Nil_forest: "\<not> reachable E pk [] p"
  using reachable_hd [of E pk "[]" p] by auto

lemma sorted_wrt_Cons_paths:
  "sorted_wrt (<) (qs :: path list) \<Longrightarrow> sorted_wrt (<) (map ((#) i) qs)"
  by (simp add: sorted_wrt_map)

lemma flatten_paths:
  "rest = drop i0 ns \<Longrightarrow>
   \<exists>ps. sorted_wrt (<) ps \<and> set ps = {p. reachable E pk ns p \<and> i0 \<le> hd p} \<and>
        flattenTree_from E lvl pk i0 rest = map (row_at E lvl pk ns) ps"
proof (induction E lvl pk i0 rest arbitrary: ns rule: flattenTree_from.induct)
  case (1 E lvl pk i0)
  then have "length ns \<le> i0" by simp
  then have "{p. reachable E pk ns p \<and> i0 \<le> hd p} = {}"
    using reachable_hd [of E pk ns] by fastforce
  then show ?case by simp
next
  case (2 E lvl pk i0 n rest)
  from "2.prems" have i0: "i0 < length ns"
    by (metis drop_eq_Nil list.distinct(1) not_le)
  from "2.prems" i0 have n: "n = ns ! i0" and rest: "rest = drop (i0 + 1) ns"
    by (simp_all add: Cons_nth_drop_Suc [symmetric])
  define item where "item = make_item E lvl pk i0 n"
  define k where "k = key_at pk ns [i0]"
  have k: "Some (row_key item) = k"
    unfolding item_def k_def n by (simp add: make_item_def item_key_eq)
  have exp: "isExpanded item = (k \<in> E)"
    unfolding item_def k_def n by (simp add: make_item_def item_key_eq)
  have hc: "hasChildren item = children_nonempty n"
    by (simp add: item_def make_item_def)
  define sub where "sub = (if truthy (hasChildren item) \<and> isExpanded item
      then flattenTree_from E (lvl + 1) (Some (row_key item)) 0 (kids n) else [])"
  have "\<exists>qs. sorted_wrt (<) qs \<and> set qs = {q. k \<in> E \<and> reachable E k (kids n) q} \<and>
          sub = map (row_at E (Suc lvl) k (kids n)) qs"
  proof (cases "truthy (hasChildren item) \<and> isExpanded item")
    case True
    from "2.IH"(1) [OF item_def True, of "kids n"] True show ?thesis
      by (simp add: sub_def k exp)
  next
    case False
    then have "{q. k \<in> E \<and> reachable E k (kids n) q} = {}"
      using kids_empty_if_not_truthy [of n] reachable_Nil_forest
      by (auto simp: exp hc)
    moreover from False have "sub = []" unfolding sub_def by (rule if_not_P)
    ultimately show ?thesis by simp
  qed
  then obtain qs where qs: "sorted_wrt (<) qs"
      "set qs = {q. k \<in> E \<and> reachable E k (kids n) q}"
      "sub = map (row_at E (Suc lvl) k (kids n)) qs"
    by blast
  from "2.IH"(2) [OF item_def rest] obtain rs where rs: "sorted_wrt (<) rs"
      "set rs = {p. reachable E pk ns p \<and> i0 + 1 \<le> hd p}"
      "flattenTree_from E lvl pk (i0 + 1) rest = map (row_at E lvl pk ns) rs"
    by blast
  have qs_ne: "q \<noteq> []" if "q \<in> set qs" for q
    using that qs(2) reachable_nonempty by auto
  have rs_hd: "r \<noteq> [] \<and> i0 < hd r" if "r \<in> set rs" for r
    using that rs(2) reachable_nonempty by auto
  let ?ps = "[i0] # map ((#) i0) qs @ rs"
  have sorted: "sorted_wrt (<) ?ps"
  proof -
    have a: "[i0] < i0 # q" if "q \<in> set qs" for q
      using qs_ne [OF that] by (cases q) simp_all
    have b: "[i0] < r" if "r \<in> set rs" for r
      using rs_hd [OF that] by (cases r) simp_all
    have c: "i0 # q < r" if "r \<in> set rs" for q r
      using rs_hd [OF that] by (cases r) simp_all
    show ?thesis
      using a b c qs(1) rs(1) by (auto simp: sorted_wrt_append sorted_wrt_Cons_paths)
  qed
  have set_eq: "set ?ps = {p. reachable E pk ns p \<and> i0 \<le> hd p}"
  proof (rule set_eqI)
    fix p
    show "p \<in> set ?ps \<longleftrightarrow> p \<in> {p. reachable E pk ns p \<and> i0 \<le> hd p}"
    proof (cases p)
      case Nil
      then show ?thesis using qs_ne rs_hd by auto
    next
      case (Cons j p')
      show ?thesis
      proof (cases "j = i0")
        case True
        then show ?thesis
          using Cons i0 qs(2) rs(2) reachable_nonempty [of E k "kids n" p']
          by (auto simp: reachable_Cons k_def n)
      next
        case False
        then show ?thesis
          using Cons qs(2) rs(2) by auto
      qed
    qed
  qed
  have rows: "flattenTree_from E lvl pk i0 (n # rest) = map (row_at E lvl pk ns) ?ps"
  proof -
    have "map (row_at E lvl pk ns) (map ((#) i0) qs) = sub"
      using qs_ne i0 by (simp add: qs(3) row_at_Cons k_def n)
    moreover have "row_at E lvl pk ns [i0] = item"
      using i0 by (simp add: row_at_single item_def n)
    ultimately show ?thesis
      using rs(3) by (simp add: Let_def item_def [symmetric] sub_def [symmetric])
  qed
  show ?case
    using sorted set_eq rows by blast
qed


text \<open>
  Reachability in closed form: the path denotes a node, and the row key of every proper
  ancestor on it is in the expansion state.
\<close>

lemma reachable_iff_ancestors_expanded:
  "reachable E pk ns p =
     (p \<noteq> [] \<and> node_at ns p \<noteq> None \<and>
      (\<forall>m. 0 < m \<and> m < length p \<longrightarrow> key_at pk ns (take m p) \<in> E))"
proof (induction p arbitrary: pk ns)
  case Nil
  then show ?case by simp
next
  case (Cons i p)
  show ?case
  proof (cases "p = []")
    case True
    then show ?thesis by simp
  next
    case False
    let ?k = "key_at pk ns [i]"
    have anc: "(\<forall>m. 0 < m \<and> m < length (i # p) \<longrightarrow> key_at pk ns (take m (i # p)) \<in> E) =
               (?k \<in> E \<and> (\<forall>m. 0 < m \<and> m < length p \<longrightarrow> key_at ?k (kids (ns ! i)) (take m p) \<in> E))"
      (is "?L = ?R")
    proof
      assume L: ?L
      from L [rule_format, of 1] False have "?k \<in> E" by (cases p) simp_all
      moreover have "key_at ?k (kids (ns ! i)) (take m p) \<in> E" if "0 < m \<and> m < length p" for m
        using L [rule_format, of "Suc m"] that by simp
      ultimately show ?R by blast
    next
      assume R: ?R
      show ?L
      proof (intro allI impI)
        fix m assume m: "0 < m \<and> m < length (i # p)"
        show "key_at pk ns (take m (i # p)) \<in> E"
        proof (cases m)
          case 0
          with m show ?thesis by simp
        next
          case (Suc m')
          show ?thesis
          proof (cases "m' = 0")
            case True
            with Suc R show ?thesis by simp
          next
            case False
            with Suc m R have "key_at ?k (kids (ns ! i)) (take m' p) \<in> E" by simp
            with Suc show ?thesis by simp
          qed
        qed
      qed
    qed
    have node: "(node_at ns (i # p) \<noteq> None) = (i < length ns \<and> node_at (kids (ns ! i)) p \<noteq> None)"
      using False by (cases p) simp_all
    from Cons.IH [of ?k "kids (ns ! i)"] False show ?thesis
      unfolding anc node by (auto simp: reachable_Cons)
  qed
qed

lemma flattenTree_scenario:
  "flattenTree {Some ''C''} scenario_tree =
     [\<lparr> row_key = ''A'', row_title = ''A'', row_children = Some [leaf ''B''], level = 0,
         parentKey = None, hasChildren = Some True, isExpanded = False \<rparr>,
      \<lparr> row_key = ''C'', row_title = ''C'', row_children = Some [leaf ''D''], level = 0,
         parentKey = None, hasChildren = Some True, isExpanded = True \<rparr>,
      \<lparr> row_key = ''D'', row_title = ''D'', row_children = Some [], level = 1,
         parentKey = Some ''C'', hasChildren = Some False, isExpanded = False \<rparr>]"
  by (simp add: flattenTree_def scenario_tree_def leaf_def make_item_def item_key_def
      children_nonempty_def truthy_def kids_def)

text \<open>
  C1.  For every tree and every expansion state, the rows of \<open>flattenTree\<close> are the rows
  of exactly the reachable paths (those whose proper ancestors are all expanded nodes
  with children), listed in strictly increasing pre-order, hence each once; the row of
  a path carries its depth, the key of its parent row, whether its node has children and
  whether its key is expanded.  For roots A (child B) and C (child D) with only C
  expanded the rows are A at depth 0, C at depth 0 and D at depth 1, and B is absent.
\<close>

theorem flattenTree_reachable_preorder:
  "(\<exists>ps. sorted_wrt (<) ps \<and> set ps = {p. reachable E None nodes p} \<and>
         flattenTree E nodes = map (row_at E 0 None nodes) ps) \<and>
   flattenTree {Some ''C''} scenario_tree =
     [\<lparr> row_key = ''A'', row_title = ''A'', row_children = Some [leaf ''B''], level = 0,
         parentKey = None, hasChildren = Some True, isExpanded = False \<rparr>,
      \<lparr> row_key = ''C'', row_title = ''C'', row_children = Some [leaf ''D''], level = 0,
         parentKey = None, hasChildren = Some True, isExpanded = True \<rparr>,
      \<lparr> row_key = ''D'', row_title = ''D'', row_children = Some [], level = 1,
         parentKey = Some ''C'', hasChildren = Some False, isExpanded = False \<rparr>] \<and>
   map row_key (flattenTree {Some ''C''} scenario_tree) = [''A'', ''C'', ''D'']"
proof -
  from flatten_paths [of nodes 0 nodes E None 0]
  have "\<exists>ps. sorted_wrt (<) ps \<and> set ps = {p. reachable E None nodes p} \<and>
         flattenTree E nodes = map (row_at E 0 None nodes) ps"
    by (simp add: flattenTree_def)
  then show ?thesis
    by (simp add: flattenTree_scenario)
qed

section \<open>Layout: running offsets\<close>

lemma layout_Nil: "layout nh mh [] = ([], Num 0)"
  by (simp add: layout_def)

lemma layout_snoc:
  "layout nh mh (rows @ [r]) = layout_step nh mh (layout nh mh rows) r"
  by (simp add: layout_def)

lemma layout_fst_snoc:
  "fst (layout nh mh (rows @ [r])) =
     fst (layout nh mh rows) @
       [\<lparr> js_key = row_key r, js_top = snd (layout nh mh rows),
          js_height = height_or_min nh mh (row_key r) \<rparr>]"
  by (simp add: layout_snoc layout_step_def Let_def)

lemma layout_snd_snoc:
  "snd (layout nh mh (rows @ [r])) =
     js_plus (snd (layout nh mh rows)) (height_or_min nh mh (row_key r))"
  by (simp add: layout_snoc layout_step_def Let_def)

lemma layout_length: "length (fst (layout nh mh rows)) = length rows"
  by (induction rows rule: rev_induct) (simp_all add: layout_Nil layout_fst_snoc)

lemma layout_nth:
  "i < length rows \<Longrightarrow>
   fst (layout nh mh rows) ! i =
     \<lparr> js_key = row_key (rows ! i), js_top = snd (layout nh mh (take i rows)),
        js_height = height_or_min nh mh (row_key (rows ! i)) \<rparr>"
proof (induction rows rule: rev_induct)
  case Nil
  then show ?case by simp
next
  case (snoc r rows)
  show ?case
  proof (cases "i < length rows")
    case True
    with snoc.IH show ?thesis
      by (simp add: layout_fst_snoc nth_append layout_length)
  next
    case False
    with snoc.prems have "i = length rows" by simp
    then show ?thesis
      by (simp add: layout_fst_snoc nth_append layout_length)
  qed
qed

text \<open>
  A key that has an own entry, or that names no inherited property, reads as a number:
  the cached height unless it is 0, else the minimum.
\<close>

lemma height_or_min_numeric:
  "nh k \<noteq> None \<or> k \<notin> set object_prototype_names \<Longrightarrow>
   height_or_min nh mh k =
     Num (case nh k of None \<Rightarrow> mh | Some h \<Rightarrow> if h = 0 then mh else h)"
  by (auto simp: height_or_min_def obj_get_def split: option.splits)

lemma layout_total_numeric:
  "\<forall>r\<in>set rows. nh (row_key r) \<noteq> None \<or> row_key r \<notin> set object_prototype_names \<Longrightarrow>
   \<exists>t. snd (layout nh mh rows) = Num t"
proof (induction rows rule: rev_induct)
  case Nil
  then show ?case by (simp add: layout_Nil)
next
  case (snoc r rows)
  then obtain t where t: "snd (layout nh mh rows) = Num t" by auto
  from snoc.prems have "nh (row_key r) \<noteq> None \<or> row_key r \<notin> set object_prototype_names"
    by simp
  then have "height_or_min nh mh (row_key r) =
      Num (case nh (row_key r) of None \<Rightarrow> mh | Some h \<Rightarrow> if h = 0 then mh else h)"
    by (rule height_or_min_numeric)
  with t show ?case
    by (simp add: layout_snd_snoc)
qed

lemma layout_top_Suc:
  assumes plain: "\<forall>r\<in>set rows. nh (row_key r) \<noteq> None \<or> row_key r \<notin> set object_prototype_names"
    and i: "Suc i < length rows"
  shows "\<exists>t h. js_top (fst (layout nh mh rows) ! i) = Num t \<and>
               js_height (fst (layout nh mh rows) ! i) = Num h \<and>
               js_top (fst (layout nh mh rows) ! Suc i) = Num (t + h)"
proof -
  from i have i': "i < length rows" by simp
  have "set (take i rows) \<subseteq> set rows" by (rule set_take_subset)
  with plain have "\<forall>r\<in>set (take i rows).
      nh (row_key r) \<noteq> None \<or> row_key r \<notin> set object_prototype_names"
    by blast
  from layout_total_numeric [OF this, of mh]
  obtain t where t: "snd (layout nh mh (take i rows)) = Num t" by blast
  from plain i' have "nh (row_key (rows ! i)) \<noteq> None \<or> row_key (rows ! i) \<notin> set object_prototype_names"
    by simp
  then have "height_or_min nh mh (row_key (rows ! i)) =
      Num (case nh (row_key (rows ! i)) of None \<Rightarrow> mh | Some h \<Rightarrow> if h = 0 then mh else h)"
    by (rule height_or_min_numeric)
  then obtain h where h: "height_or_min nh mh (row_key (rows ! i)) = Num h" by blast
  have "take (Suc i) rows = take i rows @ [rows ! i]"
    using i' by (simp add: take_Suc_conv_app_nth)
  then have "snd (layout nh mh (take (Suc i) rows)) = Num (t + h)"
    using t h by (simp add: layout_snd_snoc)
  with t h show ?thesis
    using i i' by (simp add: layout_nth)
qed

lemma layout_total:
  assumes plain: "\<forall>r\<in>set rows. nh (row_key r) \<noteq> None \<or> row_key r \<notin> set object_prototype_names"
    and ne: "rows \<noteq> []"
  shows "\<exists>t h. js_top (last (fst (layout nh mh rows))) = Num t \<and>
               js_height (last (fst (layout nh mh rows))) = Num h \<and>
               snd (layout nh mh rows) = Num (t + h)"
proof -
  from ne obtain rs r where rows: "rows = rs @ [r]"
    by (cases rows rule: rev_cases) auto
  from plain rows have "\<forall>r\<in>set rs. nh (row_key r) \<noteq> None \<or> row_key r \<notin> set object_prototype_names"
    by simp
  from layout_total_numeric [OF this, of mh]
  obtain t where t: "snd (layout nh mh rs) = Num t" by blast
  from plain rows have "nh (row_key r) \<noteq> None \<or> row_key r \<notin> set object_prototype_names"
    by simp
  then have "height_or_min nh mh (row_key r) =
      Num (case nh (row_key r) of None \<Rightarrow> mh | Some h \<Rightarrow> if h = 0 then mh else h)"
    by (rule height_or_min_numeric)
  then obtain h where h: "height_or_min nh mh (row_key r) = Num h" by blast
  from t h show ?thesis
    by (simp add: rows layout_fst_snoc layout_snd_snoc)
qed

lemma layout_scenario:
  "layout scenario_heights 32 scenario_rows =
     ([\<lparr> js_key = ''A'', js_top = Num 0, js_height = Num 32 \<rparr>,
       \<lparr> js_key = ''C'', js_top = Num 32, js_height = Num 40 \<rparr>,
       \<lparr> js_key = ''D'', js_top = Num 72, js_height = Num 32 \<rparr>], Num 104)"
  by (simp add: scenario_rows_def flattenTree_scenario layout_def layout_step_def Let_def
      height_or_min_def obj_get_def scenario_heights_def)

text \<open>
  A row that is not measured yet and whose key names an inherited property gets the
  inherited function as its height, and every later top is a string.
\<close>

lemma layout_inherited_key:
  "layout Map.empty 32 [(scenario_rows ! 0)\<lparr> row_key := ''constructor'' \<rparr>, scenario_rows ! 1] =
     ([\<lparr> js_key = ''constructor'', js_top = Num 0, js_height = Object_value \<rparr>,
       \<lparr> js_key = ''C'', js_top = Text, js_height = Num 32 \<rparr>], Text)"
  by (simp add: scenario_rows_def flattenTree_scenario layout_def layout_step_def Let_def
      height_or_min_def obj_get_def object_prototype_names_def)

text \<open>
  C2, with the height clause made precise.  The position table has one entry per row,
  in the same order.  When no unmeasured row has a key that names a property inherited
  from \<^verbatim>\<open>Object.prototype\<close>: the first top is 0, each next top is the previous top plus
  the previous height, and the total height is the last top plus the last height (0 for
  no rows); a row's height is its cached height when that is not 0, and the minimum
  height when the row has no cached height or the cached height is 0.  Heights A 32,
  C 40, D 32 give tops 0, 32, 72 and total height 104.
\<close>

theorem layout_consistent:
  "length (fst (layout nh mh rows)) = length rows \<and>
   (\<forall>i<length rows. js_key (fst (layout nh mh rows) ! i) = row_key (rows ! i)) \<and>
   ((\<forall>r\<in>set rows. nh (row_key r) \<noteq> None \<or> row_key r \<notin> set object_prototype_names) \<longrightarrow>
      (\<forall>i<length rows.
         js_height (fst (layout nh mh rows) ! i) =
           Num (case nh (row_key (rows ! i)) of None \<Rightarrow> mh | Some h \<Rightarrow> if h = 0 then mh else h)) \<and>
      (rows \<noteq> [] \<longrightarrow> js_top (fst (layout nh mh rows) ! 0) = Num 0) \<and>
      (\<forall>i. Suc i < length rows \<longrightarrow>
         (\<exists>t h. js_top (fst (layout nh mh rows) ! i) = Num t \<and>
                js_height (fst (layout nh mh rows) ! i) = Num h \<and>
                js_top (fst (layout nh mh rows) ! Suc i) = Num (t + h))) \<and>
      (rows = [] \<longrightarrow> snd (layout nh mh rows) = Num 0) \<and>
      (rows \<noteq> [] \<longrightarrow>
         (\<exists>t h. js_top (last (fst (layout nh mh rows))) = Num t \<and>
                js_height (last (fst (layout nh mh rows))) = Num h \<and>
                snd (layout nh mh rows) = Num (t + h)))) \<and>
   layout scenario_heights 32 scenario_rows =
     ([\<lparr> js_key = ''A'', js_top = Num 0, js_height = Num 32 \<rparr>,
       \<lparr> js_key = ''C'', js_top = Num 32, js_height = Num 40 \<rparr>,
       \<lparr> js_key = ''D'', js_top = Num 72, js_height = Num 32 \<rparr>], Num 104)"
proof -
  have keys: "\<forall>i<length rows. js_key (fst (layout nh mh rows) ! i) = row_key (rows ! i)"
    by (simp add: layout_nth)
  have numeric: "(\<forall>i<length rows.
         js_height (fst (layout nh mh rows) ! i) =
           Num (case nh (row_key (rows ! i)) of None \<Rightarrow> mh | Some h \<Rightarrow> if h = 0 then mh else h)) \<and>
      (rows \<noteq> [] \<longrightarrow> js_top (fst (layout nh mh rows) ! 0) = Num 0) \<and>
      (\<forall>i. Suc i < length rows \<longrightarrow>
         (\<exists>t h. js_top (fst (layout nh mh rows) ! i) = Num t \<and>
                js_height (fst (layout nh mh rows) ! i) = Num h \<and>
                js_top (fst (layout nh mh rows) ! Suc i) = Num (t + h))) \<and>
      (rows = [] \<longrightarrow> snd (layout nh mh rows) = Num 0) \<and>
      (rows \<noteq> [] \<longrightarrow>
         (\<exists>t h. js_top (last (fst (layout nh mh rows))) = Num t \<and>
                js_height (last (fst (layout nh mh rows))) = Num h \<and>
                snd (layout nh mh rows) = Num (t + h)))"
    if plain: "\<forall>r\<in>set rows. nh (row_key r) \<noteq> None \<or> row_key r \<notin> set object_prototype_names"
  proof -
    have a: "js_height (fst (layout nh mh rows) ! i) =
           Num (case nh (row_key (rows ! i)) of None \<Rightarrow> mh | Some h \<Rightarrow> if h = 0 then mh else h)"
      if "i < length rows" for i
    proof -
      from plain that have "nh (row_key (rows ! i)) \<noteq> None \<or>
          row_key (rows ! i) \<notin> set object_prototype_names"
        by simp
      then have "height_or_min nh mh (row_key (rows ! i)) =
          Num (case nh (row_key (rows ! i)) of None \<Rightarrow> mh | Some h \<Rightarrow> if h = 0 then mh else h)"
        by (rule height_or_min_numeric)
      with that show ?thesis
        by (simp add: layout_nth)
    qed
    have b: "js_top (fst (layout nh mh rows) ! 0) = Num 0" if "rows \<noteq> []"
      using that by (simp add: layout_nth layout_Nil)
    have c: "snd (layout nh mh rows) = Num 0" if "rows = []"
      using that by (simp add: layout_Nil)
    from a b c layout_top_Suc [OF plain] layout_total [OF plain] show ?thesis
      by blast
  qed
  from layout_length [of nh mh rows] keys numeric layout_scenario show ?thesis
    by blast
qed

theorem layout_consistent_witness:
  "length scenario_rows = 3 \<and>
   scenario_heights (row_key (scenario_rows ! 0)) \<noteq> None \<and>
   scenario_heights (row_key (scenario_rows ! 1)) \<noteq> None \<and>
   scenario_heights (row_key (scenario_rows ! 2)) \<noteq> None \<and>
   js_top (fst (layout scenario_heights 32 scenario_rows) ! 0) = Num 0 \<and>
   js_top (fst (layout scenario_heights 32 scenario_rows) ! 1) = Num (0 + 32) \<and>
   js_top (fst (layout scenario_heights 32 scenario_rows) ! 2) = Num (32 + 40) \<and>
   js_height (fst (layout scenario_heights 32 scenario_rows) ! 2) = Num 32 \<and>
   snd (layout scenario_heights 32 scenario_rows) = Num (72 + 32)"
proof -
  have plain: "\<forall>r\<in>set scenario_rows.
      scenario_heights (row_key r) \<noteq> None \<or> row_key r \<notin> set object_prototype_names"
    by (simp add: scenario_rows_def flattenTree_scenario scenario_heights_def)
  have m: "scenario_heights (row_key (scenario_rows ! 0)) \<noteq> None"
    "scenario_heights (row_key (scenario_rows ! 1)) \<noteq> None"
    "scenario_heights (row_key (scenario_rows ! 2)) \<noteq> None"
    "length scenario_rows = 3"
    by (simp_all add: scenario_rows_def flattenTree_scenario scenario_heights_def)
  from layout_consistent [of scenario_heights 32 scenario_rows] plain
  have "layout scenario_heights 32 scenario_rows =
     ([\<lparr> js_key = ''A'', js_top = Num 0, js_height = Num 32 \<rparr>,
       \<lparr> js_key = ''C'', js_top = Num 32, js_height = Num 40 \<rparr>,
       \<lparr> js_key = ''D'', js_top = Num 72, js_height = Num 32 \<rparr>], Num 104)"
    by blast
  with m show ?thesis by simp
qed

text \<open>
  The height clause read as "the cached height, or the minimum when not measured"
  fails for a cached height of 0: the row is measured, yet its height is the minimum.
\<close>

theorem layout_zero_height_counterexample:
  "[''A'' \<mapsto> (0::real)] ''A'' = Some 0 \<and>
   row_key (scenario_rows ! 0) = ''A'' \<and>
   js_height (fst (layout [''A'' \<mapsto> 0] 32 scenario_rows) ! 0) = Num 32"
  by (simp add: scenario_rows_def flattenTree_scenario layout_def layout_step_def Let_def
      height_or_min_def obj_get_def)

section \<open>Viewport intersection: the two scans\<close>

lemma first_from_step:
  assumes "first_from s P xs i" and "\<not> P (xs ! s)"
  shows "first_from (Suc s) P xs i"
proof -
  from assms have "s \<noteq> i" by (auto simp: first_from_def)
  with assms(1) show ?thesis by (auto simp: first_from_def)
qed

lemma first_from_here:
  assumes "first_from s P xs i" and "P (xs ! s)"
  shows "i = s"
proof (rule ccontr)
  assume "i \<noteq> s"
  with assms(1) have "s \<in> {s..<i}" by (auto simp: first_from_def)
  with assms show False by (auto simp: first_from_def)
qed

lemma start_scan_first:
  "first_from s (\<lambda>p. t \<le> pos_top p + pos_height p) positions i \<Longrightarrow>
   start_scan positions t ov s = nat (max 0 (int i - int ov))"
proof (induction positions t ov s rule: start_scan.induct)
  case (1 positions t ov s)
  from "1.prems" have s: "s < length positions"
    by (simp add: first_from_def)
  show ?case
  proof (cases "t \<le> pos_top (positions ! s) + pos_height (positions ! s)")
    case True
    with "1.prems" have "i = s" by (rule first_from_here)
    with True s show ?thesis
      by (subst start_scan.simps) simp
  next
    case False
    with "1.prems" have "first_from (Suc s) (\<lambda>p. t \<le> pos_top p + pos_height p) positions i"
      by (rule first_from_step)
    with "1.IH" s False have "start_scan positions t ov (s + 1) = nat (max 0 (int i - int ov))"
      by simp
    with False s show ?thesis
      by (subst start_scan.simps) simp
  qed
qed

lemma start_scan_none:
  "\<forall>j\<in>{s..<length positions}. \<not> t \<le> pos_top (positions ! j) + pos_height (positions ! j) \<Longrightarrow>
   start_scan positions t ov s = 0"
proof (induction positions t ov s rule: start_scan.induct)
  case (1 positions t ov s)
  show ?case
  proof (cases "s < length positions")
    case True
    with "1.prems" have no: "\<not> t \<le> pos_top (positions ! s) + pos_height (positions ! s)"
      by simp
    from "1.prems" have "\<forall>j\<in>{s + 1..<length positions}.
        \<not> t \<le> pos_top (positions ! j) + pos_height (positions ! j)"
      by simp
    with "1.IH" True no have "start_scan positions t ov (s + 1) = 0"
      by simp
    with True no show ?thesis
      by (subst start_scan.simps) simp
  next
    case False
    then show ?thesis
      by (subst start_scan.simps) simp
  qed
qed

lemma end_scan_first:
  "first_from s (\<lambda>p. b < pos_top p) positions i \<Longrightarrow>
   end_scan positions b ov s = min (length positions - 1) (i + ov)"
proof (induction positions b ov s rule: end_scan.induct)
  case (1 positions b ov s)
  from "1.prems" have s: "s < length positions"
    by (simp add: first_from_def)
  show ?case
  proof (cases "b < pos_top (positions ! s)")
    case True
    with "1.prems" have "i = s" by (rule first_from_here)
    with True s show ?thesis
      by (subst end_scan.simps) simp
  next
    case False
    with "1.prems" have "first_from (Suc s) (\<lambda>p. b < pos_top p) positions i"
      by (rule first_from_step)
    with "1.IH" s False have "end_scan positions b ov (s + 1) = min (length positions - 1) (i + ov)"
      by simp
    with False s show ?thesis
      by (subst end_scan.simps) simp
  qed
qed

lemma end_scan_none:
  "\<forall>j\<in>{s..<length positions}. \<not> b < pos_top (positions ! j) \<Longrightarrow>
   end_scan positions b ov s = length positions - 1"
proof (induction positions b ov s rule: end_scan.induct)
  case (1 positions b ov s)
  show ?case
  proof (cases "s < length positions")
    case True
    with "1.prems" have no: "\<not> b < pos_top (positions ! s)"
      by simp
    from "1.prems" have "\<forall>j\<in>{s + 1..<length positions}. \<not> b < pos_top (positions ! j)"
      by simp
    with "1.IH" True no have "end_scan positions b ov (s + 1) = length positions - 1"
      by simp
    with True no show ?thesis
      by (subst end_scan.simps) simp
  next
    case False
    then show ?thesis
      by (subst end_scan.simps) simp
  qed
qed

text \<open>Bounds of the two scans.\<close>

lemma start_scan_less: "positions \<noteq> [] \<Longrightarrow> start_scan positions t ov s < length positions"
proof (induction positions t ov s rule: start_scan.induct)
  case (1 positions t ov s)
  show ?case
  proof (cases "s < length positions \<and> \<not> t \<le> pos_top (positions ! s) + pos_height (positions ! s)")
    case True
    with "1.IH" "1.prems" have "start_scan positions t ov (s + 1) < length positions"
      by simp
    with True show ?thesis
      by (subst start_scan.simps) simp
  next
    case False
    with "1.prems" show ?thesis
      by (subst start_scan.simps) auto
  qed
qed

lemma end_scan_bounds:
  "s \<le> i \<Longrightarrow> s < length positions \<Longrightarrow>
   s \<le> end_scan positions b ov i \<and> end_scan positions b ov i \<le> length positions - 1"
proof (induction positions b ov i rule: end_scan.induct)
  case (1 positions b ov i)
  show ?case
  proof (cases "i < length positions \<and> \<not> b < pos_top (positions ! i)")
    case True
    with "1.IH" "1.prems" have
      "s \<le> end_scan positions b ov (i + 1) \<and> end_scan positions b ov (i + 1) \<le> length positions - 1"
      by simp
    with True show ?thesis
      by (subst end_scan.simps, subst (2) end_scan.simps) simp
  next
    case False
    with "1.prems" show ?thesis
      by (subst end_scan.simps, subst (2) end_scan.simps) auto
  qed
qed

lemma scan_range_bounds:
  assumes "positions \<noteq> []"
  shows "range_start (scan_range positions t vh ov) \<le> range_end (scan_range positions t vh ov) \<and>
         range_end (scan_range positions t vh ov) \<le> length positions - 1"
proof -
  define s where "s = start_scan positions t ov 0"
  from assms have "s < length positions"
    unfolding s_def by (rule start_scan_less)
  from end_scan_bounds [OF order_refl this, of "t + vh" ov]
  show ?thesis
    by (simp add: scan_range_def Let_def s_def)
qed

lemma visibleRange_empty:
  "visibleRange [] container vh ov = \<lparr> range_start = 0, range_end = 0 \<rparr>"
  by (simp add: visibleRange_def)

lemma visibleRange_unmounted:
  "positions \<noteq> [] \<Longrightarrow>
   visibleRange positions None vh ov =
     \<lparr> range_start = 0, range_end = min 20 (length positions - 1) \<rparr>"
  by (simp add: visibleRange_def)

lemma visibleRange_mounted:
  "positions \<noteq> [] \<Longrightarrow>
   visibleRange positions (Some rect_top) vh ov =
     scan_range positions (max 0 (- rect_top)) vh ov"
  by (simp add: visibleRange_def)

lemma visibleRange_bounds:
  "range_start (visibleRange positions container vh ov) \<le>
     range_end (visibleRange positions container vh ov) \<and>
   range_end (visibleRange positions container vh ov) \<le> length positions - 1"
proof (cases "positions = []")
  case True
  then show ?thesis by (simp add: visibleRange_empty)
next
  case False
  show ?thesis
  proof (cases container)
    case None
    show ?thesis
      unfolding None visibleRange_unmounted [OF False] by simp
  next
    case (Some rect_top)
    show ?thesis
      unfolding Some visibleRange_mounted [OF False] by (rule scan_range_bounds [OF False])
  qed
qed

text \<open>
  The start index does not decrease with the scroll offset as long as some row's
  bottom edge still reaches the larger offset.
\<close>

lemma start_scan_lower:
  "\<exists>j. s \<le> j \<and> j < length positions \<and> t \<le> pos_top (positions ! j) + pos_height (positions ! j) \<Longrightarrow>
   nat (max 0 (int s - int ov)) \<le> start_scan positions t ov s"
proof (induction positions t ov s rule: start_scan.induct)
  case (1 positions t ov s)
  from "1.prems" have s: "s < length positions" by auto
  show ?case
  proof (cases "t \<le> pos_top (positions ! s) + pos_height (positions ! s)")
    case True
    with s show ?thesis
      by (subst start_scan.simps) simp
  next
    case False
    from "1.prems" obtain j where j: "s \<le> j" "j < length positions"
        "t \<le> pos_top (positions ! j) + pos_height (positions ! j)"
      by blast
    with False have "s \<noteq> j" by auto
    with j(1) have "s + 1 \<le> j" by simp
    with j have "\<exists>j. s + 1 \<le> j \<and> j < length positions \<and>
        t \<le> pos_top (positions ! j) + pos_height (positions ! j)"
      by blast
    with "1.IH" s False have "nat (max 0 (int (s + 1) - int ov)) \<le> start_scan positions t ov (s + 1)"
      by simp
    with False s show ?thesis
      by (subst start_scan.simps) simp
  qed
qed

lemma start_scan_mono:
  "t1 \<le> t2 \<Longrightarrow>
   \<exists>j. s \<le> j \<and> j < length positions \<and> t2 \<le> pos_top (positions ! j) + pos_height (positions ! j) \<Longrightarrow>
   start_scan positions t1 ov s \<le> start_scan positions t2 ov s"
proof (induction positions t1 ov s rule: start_scan.induct)
  case (1 positions t1 ov s)
  from "1.prems" have s: "s < length positions" by auto
  show ?case
  proof (cases "t1 \<le> pos_top (positions ! s) + pos_height (positions ! s)")
    case True
    with s have "start_scan positions t1 ov s = nat (max 0 (int s - int ov))"
      by (subst start_scan.simps) simp
    with start_scan_lower [OF "1.prems"(2)] show ?thesis by simp
  next
    case False
    with "1.prems" have no2: "\<not> t2 \<le> pos_top (positions ! s) + pos_height (positions ! s)"
      by simp
    from "1.prems" obtain j where j: "s \<le> j" "j < length positions"
        "t2 \<le> pos_top (positions ! j) + pos_height (positions ! j)"
      by blast
    with no2 have "s \<noteq> j" by auto
    with j(1) have "s + 1 \<le> j" by simp
    with j have "\<exists>j. s + 1 \<le> j \<and> j < length positions \<and>
        t2 \<le> pos_top (positions ! j) + pos_height (positions ! j)"
      by blast
    with "1.IH" s False "1.prems" have
      "start_scan positions t1 ov (s + 1) \<le> start_scan positions t2 ov (s + 1)"
      by simp
    with False no2 s show ?thesis
      by (subst start_scan.simps, subst (2) start_scan.simps) simp
  qed
qed

lemma three_rows_eq:
  "three_rows =
     [\<lparr> pos_key = ''A'', pos_top = 0, pos_height = 32 \<rparr>,
      \<lparr> pos_key = ''C'', pos_top = 32, pos_height = 32 \<rparr>,
      \<lparr> pos_key = ''D'', pos_top = 64, pos_height = 32 \<rparr>]"
  by (simp add: three_rows_def scenario_rows_def flattenTree_scenario layout_def layout_step_def
      Let_def height_or_min_def obj_get_def object_prototype_names_def)

text \<open>
  C3.  The claim: with the position table and the overscan fixed, the start index
  never decreases when the scroll offset grows, and the range always satisfies
  \<open>0 \<le> start \<le> end \<le> count - 1\<close> (both 0 for an empty table).  The bounds hold
  (\<open>visibleRange_bounds\<close>), and so does monotonicity while some row's bottom edge
  reaches the larger offset (\<open>start_scan_mono\<close>).  Once the offset is past the bottom
  edge of the last row the first loop ends without its \<^verbatim>\<open>break\<close> and \<open>start\<close> keeps its
  initial value 0: for three rows of height 32 and overscan 1 the start index is 1 at
  offset 70 and falls back to 0 at offset 200.
\<close>

theorem visibleRange_start_falls_back:
  "range_start (visibleRange three_rows (Some (- 70)) 100 1) = 1 \<and>
   range_start (visibleRange three_rows (Some (- 200)) 100 1) = 0 \<and>
   visibleRange three_rows (Some (- 200)) 100 1 = \<lparr> range_start = 0, range_end = 2 \<rparr>"
  by (simp add: visibleRange_def scan_range_def three_rows_eq start_scan.simps end_scan.simps)

text \<open>
  C4, with the fallback range made precise.  With a mounted container, \<open>start\<close> is the index of the first row whose
  bottom edge is at least \<open>viewportTop\<close>, minus the overscan, clamped at 0; \<open>end\<close> is,
  scanning from \<open>start\<close>, the index of the first row whose top edge exceeds
  \<open>viewportBottom\<close>, plus the overscan, clamped at the last index, and the last index
  when there is no such row.  An empty table gives the range \<open>(0, 0)\<close> and no rendered
  row.  With no mounted container the range runs from index 0 to index
  \<open>min 20 (count - 1)\<close> inclusive, that is the first \<open>min 21 count\<close> rows.
\<close>

theorem visibleRange_scans:
  "(first_from 0 (\<lambda>p. max 0 (- rect_top) \<le> pos_top p + pos_height p) positions i \<longrightarrow>
      int (range_start (visibleRange positions (Some rect_top) vh ov)) = max 0 (int i - int ov)) \<and>
   (first_from (range_start (visibleRange positions (Some rect_top) vh ov))
        (\<lambda>p. max 0 (- rect_top) + vh < pos_top p) positions j \<longrightarrow>
      range_end (visibleRange positions (Some rect_top) vh ov) = min (length positions - 1) (j + ov)) \<and>
   (positions \<noteq> [] \<longrightarrow>
    (\<forall>j\<in>{range_start (visibleRange positions (Some rect_top) vh ov)..<length positions}.
        \<not> max 0 (- rect_top) + vh < pos_top (positions ! j)) \<longrightarrow>
      range_end (visibleRange positions (Some rect_top) vh ov) = length positions - 1) \<and>
   visibleRange [] container vh ov = \<lparr> range_start = 0, range_end = 0 \<rparr> \<and>
   visibleNodes [] (visibleRange [] container vh ov) = [] \<and>
   (positions \<noteq> [] \<longrightarrow>
      visibleRange positions None vh ov =
        \<lparr> range_start = 0, range_end = min 20 (length positions - 1) \<rparr>) \<and>
   (positions \<noteq> [] \<longrightarrow> length rows = length positions \<longrightarrow>
      length (visibleNodes rows (visibleRange positions None vh ov)) = min 21 (length positions))"
proof -
  let ?t = "max 0 (- rect_top)"
  have start: "int (range_start (visibleRange positions (Some rect_top) vh ov)) = max 0 (int i - int ov)"
    if f: "first_from 0 (\<lambda>p. ?t \<le> pos_top p + pos_height p) positions i"
  proof -
    from f have ne: "positions \<noteq> []" by (auto simp: first_from_def)
    from start_scan_first [OF f, of ov] show ?thesis
      by (simp add: visibleRange_mounted [OF ne] scan_range_def Let_def)
  qed
  have end1: "range_end (visibleRange positions (Some rect_top) vh ov) = min (length positions - 1) (j + ov)"
    if f: "first_from (range_start (visibleRange positions (Some rect_top) vh ov))
             (\<lambda>p. ?t + vh < pos_top p) positions j"
  proof -
    from f have ne: "positions \<noteq> []" by (auto simp: first_from_def)
    from f have "first_from (start_scan positions ?t ov 0) (\<lambda>p. ?t + vh < pos_top p) positions j"
      by (simp add: visibleRange_mounted [OF ne] scan_range_def Let_def)
    from end_scan_first [OF this, of ov] show ?thesis
      by (simp add: visibleRange_mounted [OF ne] scan_range_def Let_def)
  qed
  have end2: "range_end (visibleRange positions (Some rect_top) vh ov) = length positions - 1"
    if ne: "positions \<noteq> []"
      and no: "\<forall>j\<in>{range_start (visibleRange positions (Some rect_top) vh ov)..<length positions}.
                 \<not> ?t + vh < pos_top (positions ! j)"
  proof -
    from no have "\<forall>j\<in>{start_scan positions ?t ov 0..<length positions}.
        \<not> ?t + vh < pos_top (positions ! j)"
      by (simp add: visibleRange_mounted [OF ne] scan_range_def Let_def)
    from end_scan_none [OF this, of ov] show ?thesis
      by (simp add: visibleRange_mounted [OF ne] scan_range_def Let_def)
  qed
  have unm: "length (visibleNodes rows (visibleRange positions None vh ov)) = min 21 (length positions)"
    if ne: "positions \<noteq> []" and len: "length rows = length positions"
  proof -
    from ne have "0 < length positions" by simp
    then have "min (min 20 (length positions - 1) + 1) (length positions) = min 21 (length positions)"
      by arith
    then show ?thesis
      by (simp add: visibleRange_unmounted [OF ne] visibleNodes_def len)
  qed
  show ?thesis
    using start end1 end2 unm
    by (simp add: visibleRange_empty visibleRange_unmounted visibleNodes_def)
qed

theorem visibleRange_scans_witness:
  "first_from 0 (\<lambda>p. max 0 (- (- 40)) \<le> pos_top p + pos_height p) three_rows 1 \<and>
   int (range_start (visibleRange three_rows (Some (- 40)) 10 0)) = max 0 (int 1 - int 0) \<and>
   first_from 1 (\<lambda>p. max 0 (- (- 40)) + 10 < pos_top p) three_rows 2 \<and>
   range_end (visibleRange three_rows (Some (- 40)) 10 0) = min (length three_rows - 1) (2 + 0) \<and>
   three_rows \<noteq> [] \<and>
   range_end (visibleRange three_rows (Some (- 70)) 100 1) = length three_rows - 1 \<and>
   visibleRange three_rows None 100 1 = \<lparr> range_start = 0, range_end = 2 \<rparr> \<and>
   length scenario_rows = length three_rows \<and>
   length (visibleNodes scenario_rows (visibleRange three_rows None 100 1)) = 3"
proof -
  have a: "first_from 0 (\<lambda>p. max 0 (- (- 40)) \<le> pos_top p + pos_height p) three_rows 1"
    by (simp add: first_from_def three_rows_eq)
  have s: "range_start (visibleRange three_rows (Some (- 40)) 10 0) = 1"
    by (simp add: visibleRange_def scan_range_def three_rows_eq start_scan.simps)
  have b: "first_from 1 (\<lambda>p. max 0 (- (- 40)) + 10 < pos_top p) three_rows 2"
    by (simp add: first_from_def three_rows_eq)
  have ne: "three_rows \<noteq> []"
    by (simp add: three_rows_eq)
  have len: "length scenario_rows = length three_rows"
    by (simp add: three_rows_eq scenario_rows_def flattenTree_scenario)
  have s2: "range_start (visibleRange three_rows (Some (- 70)) 100 1) = 1"
    by (simp add: visibleRange_def scan_range_def three_rows_eq start_scan.simps)
  have c: "\<forall>j\<in>{range_start (visibleRange three_rows (Some (- 70)) 100 1)..<length three_rows}.
        \<not> max 0 (- (- 70)) + 100 < pos_top (three_rows ! j)"
    unfolding s2 by (auto simp: three_rows_eq less_Suc_eq)
  have b': "first_from (range_start (visibleRange three_rows (Some (- 40)) 10 0))
              (\<lambda>p. max 0 (- (- 40)) + 10 < pos_top p) three_rows 2"
    unfolding s by (rule b)
  note T1 = visibleRange_scans [of "- 40" three_rows 1 10 0 2 None scenario_rows]
  note T2 = visibleRange_scans [of "- 70" three_rows 1 100 1 2 None scenario_rows]
  from T1 a have r1: "int (range_start (visibleRange three_rows (Some (- 40)) 10 0)) =
      max 0 (int 1 - int 0)"
    by blast
  from T1 b' have r2: "range_end (visibleRange three_rows (Some (- 40)) 10 0) =
      min (length three_rows - 1) (2 + 0)"
    by blast
  from T2 ne c have r3: "range_end (visibleRange three_rows (Some (- 70)) 100 1) =
      length three_rows - 1"
    by blast
  from T2 ne have r4: "visibleRange three_rows None 100 1 =
      \<lparr> range_start = 0, range_end = min 20 (length three_rows - 1) \<rparr>"
    by blast
  from T2 ne len have r5: "length (visibleNodes scenario_rows (visibleRange three_rows None 100 1)) =
      min 21 (length three_rows)"
    by blast
  have n3: "length three_rows = 3"
    by (simp add: three_rows_eq)
  from r4 have r4': "visibleRange three_rows None 100 1 = \<lparr> range_start = 0, range_end = 2 \<rparr>"
    by (simp add: n3)
  from r5 have r5': "length (visibleNodes scenario_rows (visibleRange three_rows None 100 1)) = 3"
    by (simp add: n3)
  from a r1 b r2 ne r3 r4' len r5' show ?thesis
    by blast
qed

text \<open>
  The fallback read as covering \<open>min 20 (count - 1)\<close> row indices fails: for the three
  rows that would be 2 indices, but all 3 rows are covered.
\<close>

theorem visibleRange_unmounted_counterexample:
  "min 20 (length three_rows - 1) = 2 \<and>
   visibleRange three_rows None 100 1 = \<lparr> range_start = 0, range_end = 2 \<rparr> \<and>
   {range_start (visibleRange three_rows None 100 1)..range_end (visibleRange three_rows None 100 1)}
     = {0, 1, 2}"
  by (auto simp: three_rows_eq visibleRange_def)

section \<open>Expansion control\<close>

lemma truthy_children_nonempty: "truthy (children_nonempty n) = has_child n"
  by (auto simp: truthy_def children_nonempty_def has_child_def kids_def split: option.splits)

lemma set_traverse: "set (traverse ns) = key ` {n \<in> set (nodes_of ns). has_child n}"
proof (induction ns rule: traverse.induct)
  case 1
  then show ?case by simp
next
  case (2 n ns)
  show ?case
  proof (cases "has_child n")
    case True
    with 2 show ?thesis
      by (auto simp: truthy_children_nonempty)
  next
    case False
    then have "nodes_of (kids n) = []"
      by (simp add: has_child_def)
    with False 2 show ?thesis
      by (auto simp: truthy_children_nonempty)
  qed
qed

lemma nodes_of_scenario:
  "nodes_of scenario_tree =
     [Node (Some ''A'') ''A'' (Some [leaf ''B'']), leaf ''B'',
      Node (Some ''C'') ''C'' (Some [leaf ''D'']), leaf ''D'']"
  by (simp add: scenario_tree_def leaf_def kids_def)

lemma getAllKeys_scenario: "getAllKeys scenario_tree = [Some ''A'', Some ''C'']"
  by (simp add: getAllKeys_def scenario_tree_def leaf_def kids_def truthy_def children_nonempty_def)

text \<open>
  C5.  After \<open>expandAll\<close> the expansion state is exactly the set of the keys of the
  nodes, at any depth, that have at least one child; when the keys of the tree are
  pairwise distinct, as the data model requires, it contains the key of no leaf.  After
  \<open>collapseAll\<close> it is empty.
\<close>

theorem expandAll_collapseAll:
  "expandedKeys (expandAll st) = key ` {n \<in> set (nodes_of (data st)). has_child n} \<and>
   (distinct (map key (nodes_of (data st))) \<longrightarrow>
      (\<forall>n\<in>set (nodes_of (data st)). \<not> has_child n \<longrightarrow> key n \<notin> expandedKeys (expandAll st))) \<and>
   expandedKeys (collapseAll st) = {}"
proof -
  have eq: "expandedKeys (expandAll st) = key ` {n \<in> set (nodes_of (data st)). has_child n}"
    by (simp add: expandAll_def getAllKeys_def set_traverse)
  have "key n \<notin> expandedKeys (expandAll st)"
    if d: "distinct (map key (nodes_of (data st)))"
      and n: "n \<in> set (nodes_of (data st))" and leaf: "\<not> has_child n" for n
  proof
    assume "key n \<in> expandedKeys (expandAll st)"
    with eq obtain m where m: "m \<in> set (nodes_of (data st))" "has_child m" "key m = key n"
      by auto
    from d have "inj_on key (set (nodes_of (data st)))"
      by (simp add: distinct_map)
    with m n have "m = n" by (auto dest: inj_onD)
    with m leaf show False by simp
  qed
  with eq show ?thesis
    by (simp add: collapseAll_def)
qed

theorem expandAll_collapseAll_witness:
  "distinct (map key (nodes_of (data scenario_engine))) \<and>
   leaf ''B'' \<in> set (nodes_of (data scenario_engine)) \<and>
   \<not> has_child (leaf ''B'') \<and>
   key (leaf ''B'') \<notin> expandedKeys (expandAll scenario_engine) \<and>
   expandedKeys (expandAll scenario_engine) = {Some ''A'', Some ''C''} \<and>
   expandedKeys (collapseAll scenario_engine) = {}"
proof -
  have d: "distinct (map key (nodes_of (data scenario_engine)))"
    by (simp add: scenario_engine_def nodes_of_scenario leaf_def)
  have b: "leaf ''B'' \<in> set (nodes_of (data scenario_engine))"
    by (simp add: scenario_engine_def nodes_of_scenario)
  have l: "\<not> has_child (leaf ''B'')"
    by (simp add: has_child_def leaf_def kids_def)
  have e: "expandedKeys (expandAll scenario_engine) = {Some ''A'', Some ''C''}"
    by (simp add: expandAll_def scenario_engine_def getAllKeys_scenario)
  from expandAll_collapseAll [of scenario_engine] d b l
  have "key (leaf ''B'') \<notin> expandedKeys (expandAll scenario_engine)"
    and "expandedKeys (collapseAll scenario_engine) = {}"
    by blast+
  with d b l e show ?thesis by blast
qed

text \<open>
  C6, with the guard placed where the source has it.  For every key, whether or not it belongs to a node with children,
  \<open>toggleExpand\<close> flips the membership of that key in the expansion state, leaves the
  other members alone, and calls the expansion callback, when one is supplied, with
  the key and the new flag, true exactly when the key was not expanded before.  The
  engine makes no check on children and raises no error.  It is the row renderer's
  expand click that has no effect on a row without children, and toggles the row's key
  otherwise.
\<close>

theorem toggleExpand_flips:
  "(Some k \<in> expandedKeys (fst (toggleExpand k st))) = (Some k \<notin> expandedKeys st) \<and>
   (\<forall>k'. k' \<noteq> Some k \<longrightarrow>
      (k' \<in> expandedKeys (fst (toggleExpand k st))) = (k' \<in> expandedKeys st)) \<and>
   fst (toggleExpand k st) = st\<lparr> expandedKeys := expandedKeys (fst (toggleExpand k st)) \<rparr> \<and>
   snd (toggleExpand k st) =
     (if onNodeExpand st then [NodeExpand k (Some k \<notin> expandedKeys st)] else []) \<and>
   (\<not> truthy (hasChildren node) \<longrightarrow> handleExpandClick node st = (st, [])) \<and>
   (truthy (hasChildren node) \<longrightarrow> handleExpandClick node st = toggleExpand (row_key node) st)"
  by (auto simp: toggleExpand_def handleExpandClick_def)

lemma flattenTree_both_expanded:
  "flattenTree {Some ''A'', Some ''C''} scenario_tree =
     [\<lparr> row_key = ''A'', row_title = ''A'', row_children = Some [leaf ''B''], level = 0,
         parentKey = None, hasChildren = Some True, isExpanded = True \<rparr>,
      \<lparr> row_key = ''B'', row_title = ''B'', row_children = Some [], level = 1,
         parentKey = Some ''A'', hasChildren = Some False, isExpanded = False \<rparr>,
      \<lparr> row_key = ''C'', row_title = ''C'', row_children = Some [leaf ''D''], level = 0,
         parentKey = None, hasChildren = Some True, isExpanded = True \<rparr>,
      \<lparr> row_key = ''D'', row_title = ''D'', row_children = Some [], level = 1,
         parentKey = Some ''C'', hasChildren = Some False, isExpanded = False \<rparr>]"
  by (simp add: flattenTree_def scenario_tree_def leaf_def make_item_def item_key_def
      children_nonempty_def truthy_def kids_def)

lemma row_B_eq:
  "row_B = \<lparr> row_key = ''B'', row_title = ''B'', row_children = Some [], level = 1,
         parentKey = Some ''A'', hasChildren = Some False, isExpanded = False \<rparr>"
  by (simp add: row_B_def flattenTree_both_expanded)

lemma row_C_eq:
  "row_C = \<lparr> row_key = ''C'', row_title = ''C'', row_children = Some [leaf ''D''], level = 0,
         parentKey = None, hasChildren = Some True, isExpanded = True \<rparr>"
  by (simp add: row_C_def flattenTree_both_expanded)

theorem toggleExpand_flips_witness:
  "Some ''C'' \<noteq> Some ''B'' \<and>
   Some ''C'' \<in> expandedKeys (fst (toggleExpand ''B'' scenario_engine)) \<and>
   Some ''B'' \<in> expandedKeys (fst (toggleExpand ''B'' scenario_engine)) \<and>
   snd (toggleExpand ''B'' scenario_engine) = [NodeExpand ''B'' True] \<and>
   \<not> truthy (hasChildren row_B) \<and>
   handleExpandClick row_B scenario_engine = (scenario_engine, []) \<and>
   truthy (hasChildren row_C) \<and>
   handleExpandClick row_C scenario_engine = toggleExpand ''C'' scenario_engine"
proof -
  have b: "\<not> truthy (hasChildren row_B)" and c: "truthy (hasChildren row_C)"
    by (simp_all add: row_B_eq row_C_eq truthy_def)
  have m: "Some ''C'' \<in> expandedKeys scenario_engine" "Some ''B'' \<notin> expandedKeys scenario_engine"
    "onNodeExpand scenario_engine"
    by (simp_all add: scenario_engine_def)
  note T = toggleExpand_flips [of "''B''" scenario_engine row_B]
  note T' = toggleExpand_flips [of "''B''" scenario_engine row_C]
  from T m have "Some ''C'' \<in> expandedKeys (fst (toggleExpand ''B'' scenario_engine))"
    by simp
  moreover from T m have "Some ''B'' \<in> expandedKeys (fst (toggleExpand ''B'' scenario_engine))"
    by simp
  moreover from T m have "snd (toggleExpand ''B'' scenario_engine) = [NodeExpand ''B'' True]"
    by simp
  moreover from T b have "handleExpandClick row_B scenario_engine = (scenario_engine, [])"
    by blast
  moreover from T' c have "handleExpandClick row_C scenario_engine = toggleExpand ''C'' scenario_engine"
    by (simp add: row_C_eq)
  ultimately show ?thesis
    using b c by simp
qed

text \<open>
  Toggling the key of a node without children is not without effect in the engine: B
  is a leaf of the scenario tree, and toggling its key adds it to the expansion state
  and calls the callback.
\<close>

theorem toggleExpand_leaf_counterexample:
  "leaf ''B'' \<in> set (nodes_of (data scenario_engine)) \<and>
   key (leaf ''B'') = Some ''B'' \<and>
   \<not> has_child (leaf ''B'') \<and>
   expandedKeys scenario_engine = {Some ''C''} \<and>
   expandedKeys (fst (toggleExpand ''B'' scenario_engine)) = {Some ''B'', Some ''C''} \<and>
   snd (toggleExpand ''B'' scenario_engine) = [NodeExpand ''B'' True]"
  by (simp add: toggleExpand_def scenario_engine_def nodes_of_scenario leaf_def has_child_def
      kids_def)

section \<open>Height feedback\<close>

text \<open>
  For every key other than \<^verbatim>\<open>__proto__\<close>: reporting the height already cached changes
  nothing, reporting another height stores it for that key and calls \<^verbatim>\<open>setNodeHeights\<close>
  once, and a repeated report changes nothing more.
\<close>

lemma updateNodeHeight_ordinary_key:
  assumes "k \<noteq> ''__proto__''"
  shows "(heightCacheRef st k = Some h \<longrightarrow>
            updateNodeHeight k h st = st \<and>
            positions_of (updateNodeHeight k h st) = positions_of st \<and>
            setNodeHeights_calls (updateNodeHeight k h st) = setNodeHeights_calls st) \<and>
         (heightCacheRef st k \<noteq> Some h \<longrightarrow>
            heightCacheRef (updateNodeHeight k h st) = (heightCacheRef st)(k \<mapsto> h) \<and>
            nodeHeights (updateNodeHeight k h st) = (nodeHeights st)(k \<mapsto> h) \<and>
            setNodeHeights_calls (updateNodeHeight k h st) = setNodeHeights_calls st + 1) \<and>
         updateNodeHeight k h (updateNodeHeight k h st) = updateNodeHeight k h st"
proof -
  have get: "(obj_get c k = Own h) = (c k = Some h)" for c
    by (simp add: obj_get_def split: option.splits)
  have assign: "obj_assign c k h = c(k \<mapsto> h)" for c
    using assms by (simp add: obj_assign_def)
  show ?thesis
    by (simp add: updateNodeHeight_def get assign)
qed

text \<open>
  C7.  The claim: reporting for a key the height already cached for it changes no state
  and triggers no new layout, and any other report updates the cache entry and triggers
  a layout.  This holds for every key but one (\<open>updateNodeHeight_ordinary_key\<close>).  For
  the key \<^verbatim>\<open>__proto__\<close> the cache object never holds the height: the guard reads the
  inherited prototype object, the assignment is ignored, and so each report of the same
  height calls \<^verbatim>\<open>setNodeHeights\<close> again and changes the state again.
\<close>

theorem updateNodeHeight_proto_repeats:
  "obj_get (heightCacheRef scenario_engine) ''__proto__'' = Inherited \<and>
   setNodeHeights_calls scenario_engine = 3 \<and>
   setNodeHeights_calls (updateNodeHeight ''__proto__'' 32 scenario_engine) = 4 \<and>
   heightCacheRef (updateNodeHeight ''__proto__'' 32 scenario_engine) =
     heightCacheRef scenario_engine \<and>
   setNodeHeights_calls
     (updateNodeHeight ''__proto__'' 32 (updateNodeHeight ''__proto__'' 32 scenario_engine)) = 5 \<and>
   updateNodeHeight ''__proto__'' 32 (updateNodeHeight ''__proto__'' 32 scenario_engine) \<noteq>
     updateNodeHeight ''__proto__'' 32 scenario_engine"
proof -
  have g: "obj_get (heightCacheRef scenario_engine) ''__proto__'' = Inherited"
    by (simp add: obj_get_def scenario_engine_def scenario_heights_def object_prototype_names_def)
  have a: "obj_assign (heightCacheRef scenario_engine) ''__proto__'' 32 = heightCacheRef scenario_engine"
    by (simp add: obj_assign_def scenario_engine_def scenario_heights_def)
  have c: "setNodeHeights_calls scenario_engine = 3"
    by (simp add: scenario_engine_def)
  have 1: "updateNodeHeight ''__proto__'' 32 scenario_engine =
      scenario_engine\<lparr> nodeHeights := (nodeHeights scenario_engine)(''__proto__'' \<mapsto> 32),
                        setNodeHeights_calls := 4 \<rparr>"
    by (simp add: updateNodeHeight_def g a c)
  have 2: "updateNodeHeight ''__proto__'' 32 (updateNodeHeight ''__proto__'' 32 scenario_engine) =
      scenario_engine\<lparr> nodeHeights := (nodeHeights scenario_engine)(''__proto__'' \<mapsto> 32),
                        setNodeHeights_calls := 5 \<rparr>"
    unfolding 1 by (simp add: updateNodeHeight_def g a)
  have 3: "setNodeHeights_calls (updateNodeHeight ''__proto__'' 32
        (updateNodeHeight ''__proto__'' 32 scenario_engine)) \<noteq>
      setNodeHeights_calls (updateNodeHeight ''__proto__'' 32 scenario_engine)"
    unfolding 2 unfolding 1 by simp
  then have 4: "updateNodeHeight ''__proto__'' 32 (updateNodeHeight ''__proto__'' 32 scenario_engine) \<noteq>
     updateNodeHeight ''__proto__'' 32 scenario_engine"
    by metis
  have 5: "heightCacheRef (updateNodeHeight ''__proto__'' 32 scenario_engine) =
     heightCacheRef scenario_engine"
    unfolding 1 by simp
  have 6: "setNodeHeights_calls (updateNodeHeight ''__proto__'' 32 scenario_engine) = 4"
    unfolding 1 by simp
  have 7: "setNodeHeights_calls
     (updateNodeHeight ''__proto__'' 32 (updateNodeHeight ''__proto__'' 32 scenario_engine)) = 5"
    unfolding 2 by simp
  from g c 4 5 6 7 show ?thesis by blast
qed

section \<open>Drag and drop\<close>



text \<open>
  C9.  For a row of height \<open>h\<close> (not negative) and a pointer offset within it, the drop
  position is before when the offset is below a quarter of \<open>h\<close>, after when it is above
  three quarters of \<open>h\<close>, and inside in between.  The drag-over handlers store the
  hovered row and this position in the drag session and change nothing else; when no
  drag is under way, or dragging is disabled, they leave the state as it is.
\<close>

theorem dragOver_classifies:
  "(0 \<le> h \<longrightarrow> offsetY < 0.25 * h \<longrightarrow> classify offsetY h = Before) \<and>
   (0 \<le> h \<longrightarrow> offsetY > 0.75 * h \<longrightarrow> classify offsetY h = After) \<and>
   (0.25 * h \<le> offsetY \<longrightarrow> offsetY \<le> 0.75 * h \<longrightarrow> classify offsetY h = Inside) \<and>
   (draggable st \<longrightarrow> dragging (dragState st) \<longrightarrow>
      row_handleDragOver node clientY rect_top h st =
        st\<lparr> dragState := (dragState st)
              \<lparr> dropPosition := Some (classify (clientY - rect_top) h), dropNode := Some node \<rparr> \<rparr>) \<and>
   (\<not> dragging (dragState st) \<longrightarrow> row_handleDragOver node clientY rect_top h st = st) \<and>
   (\<not> draggable st \<longrightarrow> row_handleDragOver node clientY rect_top h st = st) \<and>
   data (row_handleDragOver node clientY rect_top h st) = data st \<and>
   expandedKeys (row_handleDragOver node clientY rect_top h st) = expandedKeys st \<and>
   nodeHeights (row_handleDragOver node clientY rect_top h st) = nodeHeights st \<and>
   dragging (dragState (row_handleDragOver node clientY rect_top h st)) = dragging (dragState st) \<and>
   dragNode (dragState (row_handleDragOver node clientY rect_top h st)) = dragNode (dragState st)"
  by (simp add: classify_def row_handleDragOver_def handleDragOver_def)

theorem dragOver_classifies_witness:
  "(0::real) \<le> 40 \<and> (5::real) < 0.25 * 40 \<and> classify 5 40 = Before \<and>
   (35::real) > 0.75 * 40 \<and> classify 35 40 = After \<and>
   (0.25::real) * 40 \<le> 20 \<and> (20::real) \<le> 0.75 * 40 \<and> classify 20 40 = Inside \<and>
   draggable (handleDragStart row_B scenario_engine) \<and>
   dragging (dragState (handleDragStart row_B scenario_engine)) \<and>
   dragState (row_handleDragOver row_C 105 100 40 (handleDragStart row_B scenario_engine)) =
     \<lparr> dragging = True, dragNode = Some row_B, dropPosition = Some Before, dropNode = Some row_C \<rparr> \<and>
   \<not> dragging (dragState scenario_engine) \<and>
   row_handleDragOver row_C 105 100 40 scenario_engine = scenario_engine"
proof -
  let ?st = "handleDragStart row_B scenario_engine"
  have h: "(0::real) \<le> 40" "(5::real) < 0.25 * 40" "(35::real) > 0.75 * 40"
    "(0.25::real) * 40 \<le> 20" "(20::real) \<le> 0.75 * 40"
    by simp_all
  have d: "draggable ?st" "dragging (dragState ?st)" "\<not> dragging (dragState scenario_engine)"
    by (simp_all add: handleDragStart_def scenario_engine_def idle_def)
  from dragOver_classifies [of 40 5] h have 1: "classify 5 40 = Before" by blast
  from dragOver_classifies [of 40 35] h have 2: "classify 35 40 = After" by blast
  from dragOver_classifies [of 40 20] h have 3: "classify 20 40 = Inside" by blast
  from dragOver_classifies [of 40 5 ?st row_C 105 100] d
  have "row_handleDragOver row_C 105 100 40 ?st =
        ?st\<lparr> dragState := (dragState ?st)
              \<lparr> dropPosition := Some (classify (105 - 100) 40), dropNode := Some row_C \<rparr> \<rparr>"
    by blast
  then have 4: "dragState (row_handleDragOver row_C 105 100 40 ?st) =
     \<lparr> dragging = True, dragNode = Some row_B, dropPosition = Some Before, dropNode = Some row_C \<rparr>"
    using 1 by (simp add: handleDragStart_def scenario_engine_def)
  from dragOver_classifies [of 40 5 scenario_engine row_C 105 100] d
  have 5: "row_handleDragOver row_C 105 100 40 scenario_engine = scenario_engine"
    by blast
  from h d 1 2 3 4 5 show ?thesis by blast
qed

section \<open>Flatten: synthesized keys\<close>

lemma template_key_nonempty: "template_key pk i \<noteq> []"
  by (simp add: template_key_def split: option.splits)

lemma item_key_nonempty: "item_key pk i n \<noteq> []"
  by (simp add: item_key_def template_key_nonempty split: option.splits)

lemma flattenTree_from_keys_nonempty:
  "r \<in> set (flattenTree_from E lvl pk i ns) \<Longrightarrow> row_key r \<noteq> []"
proof (induction E lvl pk i ns rule: flattenTree_from.induct)
  case (1 E lvl pk i)
  then show ?case by simp
next
  case (2 E lvl pk i n ns)
  then show ?case
    by (auto simp: Let_def make_item_def item_key_nonempty split: if_splits)
qed

lemma reachable_node_at: "reachable E pk ns p \<Longrightarrow> \<exists>n. node_at ns p = Some n"
proof (induction p arbitrary: pk ns)
  case Nil
  then show ?case by simp
next
  case (Cons i p)
  show ?case
  proof (cases "p = []")
    case True
    with Cons.prems show ?thesis by simp
  next
    case False
    with Cons.prems have "i < length ns" "reachable E (key_at pk ns [i]) (kids (ns ! i)) p"
      by (simp_all add: reachable_Cons)
    with Cons.IH False show ?thesis
      by (simp add: node_at_Cons)
  qed
qed

lemma key_at_snoc:
  "node_at ns (q @ [i]) = Some n \<Longrightarrow>
   key_at pk ns (q @ [i]) = Some (item_key (key_at pk ns q) i n)"
proof (induction q arbitrary: pk ns)
  case Nil
  then have "i < length ns" "n = ns ! i"
    by (simp_all split: if_splits)
  then show ?case
    using item_key_eq [of pk i ns] by simp
next
  case (Cons a q)
  have ne: "q @ [i] \<noteq> []" by simp
  from Cons.prems have a: "a < length ns"
    by (cases "q @ [i]") (auto split: if_splits)
  with Cons.prems have "node_at (kids (ns ! a)) (q @ [i]) = Some n"
    using node_at_Cons [OF ne a] by simp
  from Cons.IH [OF this] show ?case by simp
qed

lemma reachable_snoc:
  "p \<noteq> [] \<Longrightarrow>
   reachable E pk ns (p @ [j]) =
     (reachable E pk ns p \<and> key_at pk ns p \<in> E \<and>
      (\<exists>n. node_at ns p = Some n \<and> j < length (kids n)))"
proof (induction p arbitrary: pk ns)
  case Nil
  then show ?case by simp
next
  case (Cons a p)
  show ?case
  proof (cases "p = []")
    case True
    then show ?thesis by auto
  next
    case False
    from Cons.IH [OF False] False show ?thesis
      by (auto simp: reachable_Cons node_at_Cons)
  qed
qed

lemma reachable_row_in_flattenTree:
  assumes "reachable E None nodes p"
  shows "row_at E 0 None nodes p \<in> set (flattenTree E nodes)"
proof -
  from flatten_paths [of nodes 0 nodes E None 0]
  obtain ps where "set ps = {p. reachable E None nodes p}"
      "flattenTree E nodes = map (row_at E 0 None nodes) ps"
    by (auto simp: flattenTree_def)
  with assms show ?thesis by auto
qed

lemma flattenTree_keyless:
  "flattenTree keyless_expansion keyless_tree =
     [\<lparr> row_key = ''null-0'', row_title = ''x'',
         row_children = Some [Node (Some []) ''y'' (Some [])], level = 0,
         parentKey = None, hasChildren = Some True, isExpanded = True \<rparr>,
      \<lparr> row_key = ''null-0-0'', row_title = ''y'', row_children = Some [], level = 1,
         parentKey = Some ''null-0'', hasChildren = Some False, isExpanded = False \<rparr>]"
  by (simp add: flattenTree_def keyless_tree_def keyless_expansion_def make_item_def item_key_def
      template_key_def string_of_nat.simps digit_char_def children_nonempty_def truthy_def kids_def)

text \<open>The rendering of an index is its decimal numeral.\<close>

lemma below_ten: "n < 10 \<Longrightarrow> n \<in> {0, 1, 2, 3, 4, 5, 6, 7, 8, 9 :: nat}"
  by auto

lemma digit_char_is_digit: "n < 10 \<Longrightarrow> is_digit (digit_char n)"
  by (drule below_ten) (auto simp: is_digit_def digit_char_def)

lemma digit_value_digit_char: "n < 10 \<Longrightarrow> digit_value (digit_char n) = n"
  by (drule below_ten) (auto simp: digit_value_def digit_char_def)

lemma digit_char_zero: "n < 10 \<Longrightarrow> digit_char n = CHR ''0'' \<Longrightarrow> n = 0"
  by (drule below_ten) (auto simp: digit_char_def)

lemma decimal_value_snoc: "decimal_value (d @ [c]) = 10 * decimal_value d + digit_value c"
  by (simp add: decimal_value_def)

lemma string_of_nat_nonempty: "string_of_nat n \<noteq> []"
  by (subst string_of_nat.simps) simp

lemma string_of_nat_digits: "list_all is_digit (string_of_nat n)"
proof (induction n rule: string_of_nat.induct)
  case (1 n)
  show ?case
  proof (cases "n < 10")
    case True
    then show ?thesis
      by (subst string_of_nat.simps) (simp add: digit_char_is_digit)
  next
    case False
    with "1.IH" show ?thesis
      by (subst string_of_nat.simps) (simp add: digit_char_is_digit)
  qed
qed

lemma string_of_nat_value: "decimal_value (string_of_nat n) = n"
proof (induction n rule: string_of_nat.induct)
  case (1 n)
  show ?case
  proof (cases "n < 10")
    case True
    then show ?thesis
      by (subst string_of_nat.simps) (simp add: decimal_value_def digit_value_digit_char)
  next
    case False
    with "1.IH" have "decimal_value (string_of_nat (n div 10)) = n div 10" by simp
    with False show ?thesis
      by (subst string_of_nat.simps) (simp add: decimal_value_snoc digit_value_digit_char)
  qed
qed

lemma string_of_nat_leading_zero:
  assumes "hd (string_of_nat n) = CHR ''0''"
  shows "string_of_nat n = ''0''"
  using assms
proof (induction n rule: string_of_nat.induct)
  case (1 n)
  show ?case
  proof (cases "n < 10")
    case True
    with "1.prems" have "digit_char n = CHR ''0''"
      by (subst (asm) string_of_nat.simps) simp
    with True have "n = 0" by (rule digit_char_zero)
    then show ?thesis
      by (subst string_of_nat.simps) (simp add: digit_char_def)
  next
    case False
    with "1.prems" have "hd (string_of_nat (n div 10)) = CHR ''0''"
      by (subst (asm) string_of_nat.simps) (simp add: string_of_nat_nonempty)
    with "1.IH" False have "string_of_nat (n div 10) = ''0''" by simp
    then have "decimal_value (string_of_nat (n div 10)) = 0"
      by (simp add: decimal_value_def digit_value_def)
    then have "n div 10 = 0" by (simp add: string_of_nat_value)
    with False show ?thesis by simp
  qed
qed

lemma string_of_nat_decimal: "is_decimal_of (string_of_nat n) n"
  using string_of_nat_leading_zero [of n]
  by (simp add: is_decimal_of_def string_of_nat_nonempty string_of_nat_digits string_of_nat_value)

lemma flattenTree_thirteen_keyless:
  "map row_key (flattenTree {} thirteen_keyless) =
     [''null-0'', ''null-1'', ''null-2'', ''null-3'', ''null-4'', ''null-5'', ''null-6'',
      ''null-7'', ''null-8'', ''null-9'', ''null-10'', ''null-11'', ''null-12'']"
  by (simp add: flattenTree_def thirteen_keyless_def keyless_leaf_def make_item_def item_key_def
      template_key_def string_of_nat.simps digit_char_def children_nonempty_def truthy_def)

text \<open>
  C10.  No row of \<open>flattenTree\<close> has an empty key.  The row of a reachable node whose
  own key is absent or empty is in the output with the key made of the key of its
  parent row (\<^verbatim>\<open>null\<close> for a root), a hyphen and the decimal numeral of the node's
  sibling index; that key decides whether the row is expanded, hence whether its
  children are reachable, and it is the \<open>parentKey\<close> of the rows of its children.
  Thirteen keyless roots get the keys \<^verbatim>\<open>null-0\<close> to \<^verbatim>\<open>null-12\<close>.
\<close>

theorem flattenTree_synthesized_key:
  "(\<forall>r\<in>set (flattenTree E nodes). row_key r \<noteq> []) \<and>
   (reachable E None nodes p \<longrightarrow> node_at nodes p = Some n \<longrightarrow>
    (key n = None \<or> key n = Some []) \<longrightarrow>
      row_at E 0 None nodes p \<in> set (flattenTree E nodes) \<and>
      (\<exists>d. is_decimal_of d (last p) \<and>
           row_key (row_at E 0 None nodes p) =
             (case key_at None nodes (butlast p) of None \<Rightarrow> ''null'' | Some s \<Rightarrow> s) @ ''-'' @ d) \<and>
      isExpanded (row_at E 0 None nodes p) = (Some (row_key (row_at E 0 None nodes p)) \<in> E) \<and>
      (\<forall>j<length (kids n).
         reachable E None nodes (p @ [j]) = (Some (row_key (row_at E 0 None nodes p)) \<in> E) \<and>
         parentKey (row_at E 0 None nodes (p @ [j])) = Some (row_key (row_at E 0 None nodes p)))) \<and>
   map row_key (flattenTree {} thirteen_keyless) =
     [''null-0'', ''null-1'', ''null-2'', ''null-3'', ''null-4'', ''null-5'', ''null-6'',
      ''null-7'', ''null-8'', ''null-9'', ''null-10'', ''null-11'', ''null-12'']"
proof -
  have keys: "\<forall>r\<in>set (flattenTree E nodes). row_key r \<noteq> []"
    by (auto simp: flattenTree_def dest: flattenTree_from_keys_nonempty)
  have main: "row_at E 0 None nodes p \<in> set (flattenTree E nodes) \<and>
      (\<exists>d. is_decimal_of d (last p) \<and>
           row_key (row_at E 0 None nodes p) =
             (case key_at None nodes (butlast p) of None \<Rightarrow> ''null'' | Some s \<Rightarrow> s) @ ''-'' @ d) \<and>
      isExpanded (row_at E 0 None nodes p) = (Some (row_key (row_at E 0 None nodes p)) \<in> E) \<and>
      (\<forall>j<length (kids n).
         reachable E None nodes (p @ [j]) = (Some (row_key (row_at E 0 None nodes p)) \<in> E) \<and>
         parentKey (row_at E 0 None nodes (p @ [j])) = Some (row_key (row_at E 0 None nodes p)))"
    if r: "reachable E None nodes p" and n: "node_at nodes p = Some n"
      and falsy: "key n = None \<or> key n = Some []"
  proof -
    from r have ne: "p \<noteq> []" by (rule reachable_nonempty)
    then have p: "p = butlast p @ [last p]" by simp
    from n p have "node_at nodes (butlast p @ [last p]) = Some n" by simp
    from key_at_snoc [OF this, of None] p
    have k: "key_at None nodes p = Some (item_key (key_at None nodes (butlast p)) (last p) n)"
      by simp
    from falsy have "item_key (key_at None nodes (butlast p)) (last p) n =
        template_key (key_at None nodes (butlast p)) (last p)"
      by (auto simp: item_key_def)
    with k have k': "key_at None nodes p =
        Some ((case key_at None nodes (butlast p) of None \<Rightarrow> ''null'' | Some s \<Rightarrow> s) @ ''-'' @
          string_of_nat (last p))"
      by (simp add: template_key_def)
    have rk: "key_at None nodes p = Some (row_key (row_at E 0 None nodes p))"
      using k by (simp add: row_at_def)
    have "reachable E None nodes (p @ [j]) = (Some (row_key (row_at E 0 None nodes p)) \<in> E) \<and>
         parentKey (row_at E 0 None nodes (p @ [j])) = Some (row_key (row_at E 0 None nodes p))"
      if "j < length (kids n)" for j
      using that r n rk by (simp add: reachable_snoc [OF ne] row_at_def)
    moreover have "row_key (row_at E 0 None nodes p) =
        (case key_at None nodes (butlast p) of None \<Rightarrow> ''null'' | Some s \<Rightarrow> s) @ ''-'' @
          string_of_nat (last p)"
      using k' by (simp add: row_at_def)
    with string_of_nat_decimal [of "last p"]
    have "\<exists>d. is_decimal_of d (last p) \<and>
           row_key (row_at E 0 None nodes p) =
             (case key_at None nodes (butlast p) of None \<Rightarrow> ''null'' | Some s \<Rightarrow> s) @ ''-'' @ d"
      by blast
    moreover have "isExpanded (row_at E 0 None nodes p) =
        (Some (row_key (row_at E 0 None nodes p)) \<in> E)"
      using rk by (simp add: row_at_def)
    ultimately show ?thesis
      using reachable_row_in_flattenTree [OF r] by blast
  qed
  from keys main flattenTree_thirteen_keyless show ?thesis by blast
qed

theorem flattenTree_synthesized_key_witness:
  "reachable keyless_expansion None keyless_tree [0] \<and>
   node_at keyless_tree [0] = Some (Node None ''x'' (Some [Node (Some []) ''y'' (Some [])])) \<and>
   row_key (row_at keyless_expansion 0 None keyless_tree [0]) = ''null-0'' \<and>
   row_at keyless_expansion 0 None keyless_tree [0] \<in> set (flattenTree keyless_expansion keyless_tree) \<and>
   reachable keyless_expansion None keyless_tree [0, 0] \<and>
   parentKey (row_at keyless_expansion 0 None keyless_tree [0, 0]) = Some ''null-0'' \<and>
   map row_key (flattenTree keyless_expansion keyless_tree) = [''null-0'', ''null-0-0''] \<and>
   reachable {} None thirteen_keyless [12] \<and>
   node_at thirteen_keyless [12] = Some keyless_leaf \<and>
   key keyless_leaf = None \<and>
   is_decimal_of ''12'' 12 \<and>
   row_key (row_at {} 0 None thirteen_keyless [12]) = ''null-12'' \<and>
   row_at {} 0 None thirteen_keyless [12] \<in> set (flattenTree {} thirteen_keyless)"
proof -
  let ?n = "Node None ''x'' (Some [Node (Some []) ''y'' (Some [])])"
  have r: "reachable keyless_expansion None keyless_tree [0]"
    and n: "node_at keyless_tree [0] = Some ?n"
    and f: "key ?n = None \<or> key ?n = Some []"
    and j: "0 < length (kids ?n)"
    by (simp_all add: keyless_tree_def kids_def)
  note T = flattenTree_synthesized_key [of keyless_expansion keyless_tree "[0]" ?n]
  from T r n f have 1: "row_at keyless_expansion 0 None keyless_tree [0]
      \<in> set (flattenTree keyless_expansion keyless_tree)"
    by blast
  have 2: "row_key (row_at keyless_expansion 0 None keyless_tree [0]) = ''null-0''"
    by (simp add: row_at_def keyless_tree_def string_of_nat.simps digit_char_def)
  from T r n f j have 3:
    "reachable keyless_expansion None keyless_tree ([0] @ [0]) =
       (Some (row_key (row_at keyless_expansion 0 None keyless_tree [0])) \<in> keyless_expansion)"
    "parentKey (row_at keyless_expansion 0 None keyless_tree ([0] @ [0])) =
       Some (row_key (row_at keyless_expansion 0 None keyless_tree [0]))"
    by blast+
  from 3 2 have 4: "reachable keyless_expansion None keyless_tree [0, 0]"
    and 5: "parentKey (row_at keyless_expansion 0 None keyless_tree [0, 0]) = Some ''null-0''"
    by (simp_all add: keyless_expansion_def)
  have 6: "map row_key (flattenTree keyless_expansion keyless_tree) = [''null-0'', ''null-0-0'']"
    by (simp add: flattenTree_keyless)
  have r': "reachable {} None thirteen_keyless [12]"
    and n': "node_at thirteen_keyless [12] = Some keyless_leaf"
    and f': "key keyless_leaf = None"
    by (simp_all add: thirteen_keyless_def keyless_leaf_def)
  note U = flattenTree_synthesized_key [of "{}" thirteen_keyless "[12]" keyless_leaf]
  from U r' n' f' have 7: "row_at {} 0 None thirteen_keyless [12] \<in> set (flattenTree {} thirteen_keyless)"
    by blast
  have 8: "row_key (row_at {} 0 None thirteen_keyless [12]) = ''null-12''"
    by (simp add: row_at_def thirteen_keyless_def keyless_leaf_def string_of_nat.simps digit_char_def)
  have 9: "is_decimal_of ''12'' 12"
    by (simp add: is_decimal_of_def is_digit_def decimal_value_def digit_value_def)
  from r n 1 2 4 5 6 r' n' f' 7 8 9 show ?thesis by blast
qed

end
